theory Spec2Isabelle
  imports Complex_Main "HOL-Library.Word"
begin

section \<open>Two-dimensional arrays\<close>

text \<open>
  The map processor of \<^verbatim>\<open>tools/process_map.py\<close> works on two-dimensional numpy
  arrays. An array is modelled as the list of its rows; \<open>a ! y ! x\<close> is the
  element \<^verbatim>\<open>a[y, x]\<close>. A numpy array is always rectangular, which the predicate
  \<open>rect\<close> states. \<open>height\<close> and \<open>width\<close> are the two components of
  \<^verbatim>\<open>a.shape\<close> (an array without rows has no cells, and its width is taken to
  be 0).
\<close>

type_synonym 'a array2 = "'a list list"

definition height :: "'a array2 \<Rightarrow> nat" where
  "height a = length a"

definition width :: "'a array2 \<Rightarrow> nat" where
  "width a = (case a of [] \<Rightarrow> 0 | r # _ \<Rightarrow> length r)"

definition rect :: "'a array2 \<Rightarrow> bool" where
  "rect a = list_all (\<lambda>r. length r = width a) a"

text \<open>\<^verbatim>\<open>np.zeros((h, w), ...)\<close>, for any cell type with a zero.\<close>

definition np_zeros :: "nat \<Rightarrow> nat \<Rightarrow> 'a \<Rightarrow> 'a array2" where
  "np_zeros h w z = replicate h (replicate w z)"

text \<open>\<^verbatim>\<open>a[mask] = v\<close>: every cell whose mask cell is True becomes \<open>v\<close>.\<close>

definition masked_assign :: "'a array2 \<Rightarrow> bool array2 \<Rightarrow> 'a \<Rightarrow> 'a array2" where
  "masked_assign a msk v = map2 (map2 (\<lambda>c b. if b then v else c)) a msk"

text \<open>\<^verbatim>\<open>a == c\<close>: the elementwise comparison with a scalar.\<close>

definition eq_mask :: "'a array2 \<Rightarrow> 'a \<Rightarrow> bool array2" where
  "eq_mask a c = map (map (\<lambda>v. v = c)) a"

text \<open>\<^verbatim>\<open>a[y, x] = v\<close>.\<close>

definition set_cell :: "'a array2 \<Rightarrow> nat \<Rightarrow> nat \<Rightarrow> 'a \<Rightarrow> 'a array2" where
  "set_cell a y x v = a[y := (a ! y)[x := v]]"

section \<open>Terrain codes and colours\<close>

text \<open>
  The terrain array has dtype \<^verbatim>\<open>uint8\<close>: 0 is WATER, 1 is SHALLOW, 2 is LAND.
  A pixel of the output image is a triple of \<^verbatim>\<open>uint8\<close> channels.
\<close>

type_synonym terrain = "8 word array2"
type_synonym rgb = "8 word \<times> 8 word \<times> 8 word"

definition WATER :: "8 word" where "WATER = 0"
definition SHALLOW :: "8 word" where "SHALLOW = 1"
definition LAND :: "8 word" where "LAND = 2"

section \<open>The encoder: \<^verbatim>\<open>terrain_to_image\<close>\<close>

text \<open>
  The buffer is zero-initialised and then recoloured by three masked
  assignments, in the order of the source. \<^verbatim>\<open>Image.fromarray\<close> only wraps the
  buffer, so the image is the buffer itself.
\<close>

definition terrain_to_image :: "terrain \<Rightarrow> rgb array2" where
  "terrain_to_image terrain =
     (let h = height terrain; w = width terrain;
          rgb = np_zeros h w (0, 0, 0);
          rgb = masked_assign rgb (eq_mask terrain 0) (0, 0, 0);
          rgb = masked_assign rgb (eq_mask terrain 1) (0, 255, 255);
          rgb = masked_assign rgb (eq_mask terrain 2) (255, 255, 255)
      in rgb)"

section \<open>Floating-point values\<close>

text \<open>
  numpy computes means and square roots in \<^verbatim>\<open>float64\<close>. A float is modelled as
  the real number it stands for, or one of the special values \<^verbatim>\<open>inf\<close>,
  \<^verbatim>\<open>-inf\<close> and \<^verbatim>\<open>nan\<close>; the two zeros are not told apart (they compare
  equal).
\<close>

datatype npfloat = Finite real | PosInf | NegInf | NaN

text \<open>\<^verbatim>\<open>a < b\<close> and \<^verbatim>\<open>a <= b\<close> on floats; every comparison with nan is False.\<close>

fun flt :: "npfloat \<Rightarrow> npfloat \<Rightarrow> bool" where
  "flt (Finite a) (Finite b) = (a < b)"
| "flt (Finite a) PosInf = True"
| "flt NegInf (Finite b) = True"
| "flt NegInf PosInf = True"
| "flt _ _ = False"

fun fle :: "npfloat \<Rightarrow> npfloat \<Rightarrow> bool" where
  "fle (Finite a) (Finite b) = (a \<le> b)"
| "fle (Finite a) PosInf = True"
| "fle PosInf PosInf = True"
| "fle NegInf (Finite b) = True"
| "fle NegInf PosInf = True"
| "fle NegInf NegInf = True"
| "fle _ _ = False"

text \<open>Python's builtin \<^verbatim>\<open>min(a, b)\<close>: the second argument wins only if it is smaller.\<close>

definition py_min :: "npfloat \<Rightarrow> npfloat \<Rightarrow> npfloat" where
  "py_min a b = (if flt b a then b else a)"

text \<open>
  Rounding of a real number to \<^verbatim>\<open>float64\<close> (IEEE 754 binary64, round to nearest,
  ties to the even mantissa): the unit in the last place of \<open>x\<close> is
  \<open>2 ^ (\<lfloor>log\<^sub>2 \<bar>x\<bar>\<rfloor> - 52)\<close>, and not below \<open>2 ^ -1074\<close> (subnormal numbers); \<open>x\<close>
  is rounded to the nearest multiple of it, and a result of magnitude \<open>2 ^ 1024\<close>
  overflows to an infinity.
\<close>

definition round_half_even :: "real \<Rightarrow> int" where
  "round_half_even q =
     (let f = \<lfloor>q\<rfloor>; d = q - of_int f in
      if d < 1 / 2 then f else if 1 / 2 < d then f + 1 else if even f then f else f + 1)"

definition f64_exponent :: "real \<Rightarrow> int" where
  "f64_exponent x = max (\<lfloor>log 2 \<bar>x\<bar>\<rfloor> - 52) (- 1074)"

definition f64_huge :: real where
  "f64_huge = 2 ^ 1024"

definition f64_round :: "real \<Rightarrow> npfloat" where
  "f64_round x =
     (if x = 0 then Finite 0
      else let u = 2 powr of_int (f64_exponent x);
               y = of_int (round_half_even (x / u)) * u
           in if f64_huge \<le> y then PosInf
              else if y \<le> - f64_huge then NegInf
              else Finite y)"

text \<open>
  The float operations the program reaches: addition and division (of
  \<^verbatim>\<open>np.mean\<close>), the square root, and the conversion of an integer of the array
  to \<^verbatim>\<open>float64\<close>. Each is the exact operation followed by one rounding.
\<close>

fun f64_add :: "npfloat \<Rightarrow> npfloat \<Rightarrow> npfloat" where
  "f64_add (Finite a) (Finite b) = f64_round (a + b)"
| "f64_add NaN _ = NaN"
| "f64_add _ NaN = NaN"
| "f64_add PosInf NegInf = NaN"
| "f64_add NegInf PosInf = NaN"
| "f64_add PosInf _ = PosInf"
| "f64_add _ PosInf = PosInf"
| "f64_add NegInf _ = NegInf"
| "f64_add _ NegInf = NegInf"

fun f64_div :: "npfloat \<Rightarrow> npfloat \<Rightarrow> npfloat" where
  "f64_div (Finite a) (Finite b) =
     (if b = 0 then (if a = 0 then NaN else if 0 < a then PosInf else NegInf)
      else f64_round (a / b))"
| "f64_div PosInf (Finite b) = (if 0 \<le> b then PosInf else NegInf)"
| "f64_div NegInf (Finite b) = (if 0 \<le> b then NegInf else PosInf)"
| "f64_div (Finite a) PosInf = Finite 0"
| "f64_div (Finite a) NegInf = Finite 0"
| "f64_div _ _ = NaN"

fun f64_sqrt :: "npfloat \<Rightarrow> npfloat" where
  "f64_sqrt (Finite a) = (if a < 0 then NaN else f64_round (sqrt a))"
| "f64_sqrt PosInf = PosInf"
| "f64_sqrt _ = NaN"

definition f64_of_int :: "int \<Rightarrow> npfloat" where
  "f64_of_int n = f64_round (of_int n)"

text \<open>
  The conversion of a Python integer operand to \<^verbatim>\<open>float64\<close>: Python raises
  \<^verbatim>\<open>OverflowError\<close> where the rounded value is not finite.
\<close>

datatype py_error = OverflowError

definition f64_of_pyint :: "int \<Rightarrow> py_error + npfloat" where
  "f64_of_pyint n = (case f64_round (of_int n) of Finite y \<Rightarrow> Inr (Finite y) | _ \<Rightarrow> Inl OverflowError)"

text \<open>
  \<^verbatim>\<open>np.sqrt\<close> of a Python integer: the integer is converted to \<^verbatim>\<open>float64\<close>
  (exactly, below \<open>2^53\<close>), then the root is taken and rounded. The argument
  is a sum of two squares of offsets; one of more than 64 bits, which only a
  radius above \<open>2^31\<close> can produce, is converted like the others.
\<close>

definition np_sqrt :: "int \<Rightarrow> npfloat" where
  "np_sqrt n = f64_sqrt (f64_of_int n)"

text \<open>
  \<^verbatim>\<open>np.mean\<close> along the channel axis, for one pixel: the values are converted
  and added up in \<^verbatim>\<open>float64\<close>, starting from 0.0, and the total is divided by
  the number of values; with no value this is 0.0 / 0, which is nan. The
  additions are made from left to right (numpy adds the values of a long axis
  pairwise; the order does not matter where every partial sum is a float, which
  is the case in the theorems below).
\<close>

definition np_mean :: "int list \<Rightarrow> npfloat" where
  "np_mean cs =
     (let total = fold (\<lambda>v acc. f64_add acc (f64_of_int v)) cs (Finite 0)
      in f64_div total (f64_of_int (int (length cs))))"

section \<open>The binarizer: \<^verbatim>\<open>clean_map\<close>\<close>

text \<open>
  The input is a pixel array with two axes (one channel) or with three axes
  (the last one being the channels of a pixel). Pixel values are integers;
  the threshold is a Python integer. The grey-scale array is the integer
  array itself or the float array of the means. The comparison of an integer
  array with the threshold is exact; the comparison of a float array converts
  the threshold to \<^verbatim>\<open>float64\<close> first, which can raise.
\<close>

datatype image = Gray "int array2" | Color "int list array2"

datatype grayscale = IntGray "int array2" | FloatGray "npfloat array2"

text \<open>\<^verbatim>\<open>grayscale > land_threshold\<close>.\<close>

definition np_greater :: "grayscale \<Rightarrow> int \<Rightarrow> py_error + bool array2" where
  "np_greater g t =
     (case g of
        IntGray a \<Rightarrow> Inr (map (map (\<lambda>v. t < v)) a)
      | FloatGray a \<Rightarrow>
          (case f64_of_pyint t of
             Inl e \<Rightarrow> Inl e
           | Inr tf \<Rightarrow> Inr (map (map (\<lambda>v. flt tf v)) a)))"

definition clean_map :: "image \<Rightarrow> int \<Rightarrow> py_error + bool array2" where
  "clean_map image_array land_threshold =
     (let grayscale = (case image_array of
                         Color a \<Rightarrow> FloatGray (map (map np_mean) a)
                       | Gray a \<Rightarrow> IntGray a);
          is_land = np_greater grayscale land_threshold
      in is_land)"

section \<open>The shallow-water generator: \<^verbatim>\<open>generate_shallow_water\<close>\<close>

text \<open>\<^verbatim>\<open>range(a, b)\<close>.\<close>

definition py_range :: "int \<Rightarrow> int \<Rightarrow> int list" where
  "py_range a b = [a..b - 1]"

text \<open>The body of the two offset loops, for one offset \<open>(dy, dx)\<close>.\<close>

definition scan_offset ::
  "bool array2 \<Rightarrow> nat \<Rightarrow> nat \<Rightarrow> nat \<Rightarrow> nat \<Rightarrow> int \<Rightarrow> int \<Rightarrow> npfloat \<Rightarrow> npfloat" where
  "scan_offset land_mask h w y x dy dx min_dist =
     (let ny = int y + dy; nx = int x + dx in
      if 0 \<le> ny \<and> ny < int h \<and> 0 \<le> nx \<and> nx < int w then
        if land_mask ! nat ny ! nat nx then
          (let dist = np_sqrt (dx * dx + dy * dy) in py_min min_dist dist)
        else min_dist
      else min_dist)"

text \<open>The two offset loops: the minimum distance found in the window of a cell.\<close>

definition scan_window :: "bool array2 \<Rightarrow> nat \<Rightarrow> nat \<Rightarrow> int \<Rightarrow> nat \<Rightarrow> nat \<Rightarrow> npfloat" where
  "scan_window land_mask h w buffer_tiles y x =
     fold (\<lambda>dy min_dist.
             fold (\<lambda>dx min_dist. scan_offset land_mask h w y x dy dx min_dist)
                  (py_range (- buffer_tiles) (buffer_tiles + 1)) min_dist)
          (py_range (- buffer_tiles) (buffer_tiles + 1)) PosInf"

text \<open>The body of the two cell loops, for the cell \<open>(y, x)\<close>; the terrain array is the state.\<close>

definition visit_cell ::
  "bool array2 \<Rightarrow> nat \<Rightarrow> nat \<Rightarrow> int \<Rightarrow> nat \<Rightarrow> nat \<Rightarrow> terrain \<Rightarrow> terrain" where
  "visit_cell land_mask h w buffer_tiles y x terrain =
     (if terrain ! y ! x = 0 then
        (let min_dist = scan_window land_mask h w buffer_tiles y x in
         if fle min_dist (Finite (of_int buffer_tiles)) then set_cell terrain y x 1
         else terrain)
      else terrain)"

definition generate_shallow_water :: "bool array2 \<Rightarrow> int \<Rightarrow> terrain" where
  "generate_shallow_water land_mask buffer_tiles =
     (let h = height land_mask; w = width land_mask;
          terrain = np_zeros h w 0;
          terrain = masked_assign terrain land_mask 2
      in fold (\<lambda>y terrain.
                 fold (\<lambda>x terrain. visit_cell land_mask h w buffer_tiles y x terrain)
                      [0..<w] terrain)
              [0..<h] terrain)"

text \<open>\<^verbatim>\<open>np.sum(terrain == c)\<close>, as \<^verbatim>\<open>process_map\<close> counts the cells of a terrain type.\<close>

definition count_cells :: "terrain \<Rightarrow> 8 word \<Rightarrow> nat" where
  "count_cells terrain c = length (filter (\<lambda>b. b) (concat (eq_mask terrain c)))"

section \<open>Notions used to state the properties\<close>

text \<open>
  The Euclidean distance between the cells \<open>(y, x)\<close> and \<open>(ny, nx)\<close>, and the
  statement that some land cell of the mask lies within distance \<open>r\<close> of
  \<open>(y, x)\<close>.
\<close>

definition euclid :: "nat \<Rightarrow> nat \<Rightarrow> nat \<Rightarrow> nat \<Rightarrow> real" where
  "euclid y x ny nx = sqrt ((real nx - real x)\<^sup>2 + (real ny - real y)\<^sup>2)"

definition land_within :: "bool array2 \<Rightarrow> real \<Rightarrow> nat \<Rightarrow> nat \<Rightarrow> bool" where
  "land_within m r y x =
     (\<exists>ny < height m. \<exists>nx < width m. m ! ny ! nx \<and> euclid y x ny nx \<le> r)"

text \<open>
  The same test on integers, by squared distances over the cells of the grid;
  it is what the loops compute, and it can be evaluated.
\<close>

definition sqdist :: "nat \<Rightarrow> nat \<Rightarrow> nat \<Rightarrow> nat \<Rightarrow> int" where
  "sqdist y x ny nx = (int nx - int x) * (int nx - int x) + (int ny - int y) * (int ny - int y)"

definition near_land :: "bool array2 \<Rightarrow> int \<Rightarrow> nat \<Rightarrow> nat \<Rightarrow> bool" where
  "near_land m r y x =
     (0 \<le> r \<and>
      list_ex (\<lambda>ny. list_ex (\<lambda>nx. m ! ny ! nx \<and> sqdist y x ny nx \<le> r * r)
               [0..<width m]) [0..<height m])"

definition classify :: "bool array2 \<Rightarrow> int \<Rightarrow> nat \<Rightarrow> nat \<Rightarrow> 8 word" where
  "classify m r y x = (if m ! y ! x then LAND else if near_land m r y x then SHALLOW else WATER)"

definition colour_of :: "8 word \<Rightarrow> rgb" where
  "colour_of c = (if c = 2 then (255, 255, 255) else if c = 1 then (0, 255, 255) else (0, 0, 0))"

text \<open>
  Auxiliary notions for the proofs: the test of the offset loops (the offset
  stays inside the grid and meets a land cell), the value that the cell
  loop leaves in a cell that held \<open>c\<close> before, and the test that the window
  of a cell holds a land cell whose computed distance is at most the radius.
\<close>

definition land_at_offset :: "bool array2 \<Rightarrow> nat \<Rightarrow> nat \<Rightarrow> nat \<Rightarrow> nat \<Rightarrow> int \<Rightarrow> int \<Rightarrow> bool" where
  "land_at_offset m h w y x dy dx =
     (0 \<le> int y + dy \<and> int y + dy < int h \<and> 0 \<le> int x + dx \<and> int x + dx < int w \<and>
      m ! nat (int y + dy) ! nat (int x + dx))"

definition promoted :: "bool array2 \<Rightarrow> nat \<Rightarrow> nat \<Rightarrow> int \<Rightarrow> nat \<Rightarrow> nat \<Rightarrow> 8 word \<Rightarrow> 8 word" where
  "promoted m h w r y x c =
     (if c = 0 \<and> fle (scan_window m h w r y x) (Finite (of_int r)) then 1 else c)"

definition window_hit :: "bool array2 \<Rightarrow> int \<Rightarrow> nat \<Rightarrow> nat \<Rightarrow> bool" where
  "window_hit m r y x =
     list_ex (\<lambda>dy. list_ex (\<lambda>dx. land_at_offset m (height m) (width m) y x dy dx \<and>
                  fle (np_sqrt (dx * dx + dy * dy)) (Finite (of_int r)))
               (py_range (- r) (r + 1))) (py_range (- r) (r + 1))"

text \<open>The 5 by 5 mask whose only land cell is the centre \<open>(2, 2)\<close>.\<close>

definition mask5 :: "bool array2" where
  "mask5 = [[False, False, False, False, False],
            [False, False, False, False, False],
            [False, False, True, False, False],
            [False, False, False, False, False],
            [False, False, False, False, False]]"

text \<open>
  A mask of 2 rows and \<open>2^26 + 1\<close> columns whose only land cell is the last cell
  of the first row.
\<close>

definition far_mask :: "bool array2" where
  "far_mask = [replicate 67108864 False @ [True], replicate 67108865 False]"

text \<open>
  For the binarizer: the values of a pixel array, the statement that they all
  lie in \<open>[0, 255]\<close>, the statement that every pixel of a multi-channel array
  has at least one channel (the mean of no channel is nan), the statement that
  every pixel has fewer than \<open>2^45\<close> channels (so that the float sum of its
  values is exact), the mask of the shape of an image whose cells all hold
  \<open>b\<close>, and the statement that the comparison with the threshold raises.
\<close>

definition pixel_values :: "image \<Rightarrow> int list" where
  "pixel_values img = (case img of Gray a \<Rightarrow> concat a | Color a \<Rightarrow> concat (concat a))"

definition in_byte_range :: "image \<Rightarrow> bool" where
  "in_byte_range img = list_all (\<lambda>v. 0 \<le> v \<and> v \<le> 255) (pixel_values img)"

definition has_channels :: "image \<Rightarrow> bool" where
  "has_channels img =
     (case img of Gray a \<Rightarrow> True | Color a \<Rightarrow> list_all (list_all (\<lambda>cs. cs \<noteq> [])) a)"

definition few_channels :: "image \<Rightarrow> bool" where
  "few_channels img =
     (case img of Gray a \<Rightarrow> True
      | Color a \<Rightarrow> list_all (list_all (\<lambda>cs. length cs < 35184372088832)) a)"

definition const_mask :: "image \<Rightarrow> bool \<Rightarrow> bool array2" where
  "const_mask img b =
     (case img of Gray a \<Rightarrow> map (map (\<lambda>_. b)) a | Color a \<Rightarrow> map (map (\<lambda>_. b)) a)"

definition threshold_overflows :: "image \<Rightarrow> int \<Rightarrow> bool" where
  "threshold_overflows img t =
     (case img of Gray a \<Rightarrow> False | Color a \<Rightarrow> f64_of_pyint t = Inl OverflowError)"

text \<open>Concrete inputs: a terrain grid, a grid with cells that are no terrain code, a colour pixel.\<close>

definition terrain22 :: terrain where
  "terrain22 = [[WATER, SHALLOW], [LAND, WATER]]"

definition terrain_odd :: terrain where
  "terrain_odd = [[3, 255]]"

definition rgb_pixel :: image where
  "rgb_pixel = Color [[[200, 100, 0]]]"

section \<open>Properties of the rounding to \<^verbatim>\<open>float64\<close>\<close>

lemma rhe_of_int: "round_half_even (of_int n) = n"
  by (simp add: round_half_even_def)

lemma rhe_bounds: "\<lfloor>q\<rfloor> \<le> round_half_even q" "round_half_even q \<le> \<lfloor>q\<rfloor> + 1"
  by (simp_all add: round_half_even_def Let_def)

lemma rhe_ge:
  assumes "of_int n \<le> q"
  shows "n \<le> round_half_even q"
proof -
  have "n \<le> \<lfloor>q\<rfloor>" using assms by (simp add: le_floor_iff)
  with rhe_bounds(1) [of q] show ?thesis by linarith
qed

lemma rhe_le:
  assumes "q \<le> of_int n"
  shows "round_half_even q \<le> n"
proof (cases "q = of_int n")
  case True
  then show ?thesis by (simp add: rhe_of_int)
next
  case False
  with assms have "q < of_int n" by simp
  then have "\<lfloor>q\<rfloor> < n" by (simp add: floor_less_iff)
  with rhe_bounds(2) [of q] show ?thesis by linarith
qed

lemma rhe_gt:
  assumes "of_int n + 1 / 2 < q"
  shows "n + 1 \<le> round_half_even q"
proof -
  have f: "n \<le> \<lfloor>q\<rfloor>" using assms by (simp add: le_floor_iff)
  show ?thesis
  proof (cases "\<lfloor>q\<rfloor> = n")
    case True
    then have "1 / 2 < q - of_int \<lfloor>q\<rfloor>" using assms by simp
    then have "round_half_even q = \<lfloor>q\<rfloor> + 1"
      by (simp add: round_half_even_def Let_def)
    with True show ?thesis by simp
  next
    case False
    with f have "n + 1 \<le> \<lfloor>q\<rfloor>" by simp
    with rhe_bounds(1) [of q] show ?thesis by linarith
  qed
qed

lemma rhe_lt:
  assumes "q < of_int n + 1 / 2"
  shows "round_half_even q \<le> n"
proof -
  have f: "\<lfloor>q\<rfloor> \<le> n" using assms by (simp add: floor_le_iff)
  show ?thesis
  proof (cases "\<lfloor>q\<rfloor> = n")
    case True
    then have "q - of_int \<lfloor>q\<rfloor> < 1 / 2" using assms by simp
    then have "round_half_even q = \<lfloor>q\<rfloor>"
      by (simp add: round_half_even_def Let_def)
    with True show ?thesis by simp
  next
    case False
    with f have "\<lfloor>q\<rfloor> + 1 \<le> n" by simp
    with rhe_bounds(2) [of q] show ?thesis by linarith
  qed
qed

text \<open>The binade of a nonzero real.\<close>

lemma binade:
  assumes "x \<noteq> 0"
  shows "2 powr of_int \<lfloor>log 2 \<bar>x\<bar>\<rfloor> \<le> \<bar>x\<bar>" "\<bar>x\<bar> < 2 powr (of_int \<lfloor>log 2 \<bar>x\<bar>\<rfloor> + 1)"
  using floor_log_eq_powr_iff [of "\<bar>x\<bar>" 2 "\<lfloor>log 2 \<bar>x\<bar>\<rfloor>"] assms by simp_all

lemma floor_log2_less:
  assumes "x \<noteq> 0" "\<bar>x\<bar> < 2 powr of_int k"
  shows "\<lfloor>log 2 \<bar>x\<bar>\<rfloor> < k"
proof -
  have "(2::real) powr of_int \<lfloor>log 2 \<bar>x\<bar>\<rfloor> < 2 powr of_int k"
    using binade(1) [OF assms(1)] assms(2) by linarith
  then show ?thesis by simp
qed

lemma floor_log2_ge:
  assumes "2 powr of_int k \<le> \<bar>x\<bar>"
  shows "k \<le> \<lfloor>log 2 \<bar>x\<bar>\<rfloor>"
proof -
  have x: "x \<noteq> 0" using assms powr_gt_zero [of 2 "of_int k"] by auto
  have "(2::real) powr of_int k < 2 powr (of_int \<lfloor>log 2 \<bar>x\<bar>\<rfloor> + 1)"
    using binade(2) [OF x] assms by linarith
  then have "real_of_int k < of_int \<lfloor>log 2 \<bar>x\<bar>\<rfloor> + 1" by simp
  then show ?thesis by linarith
qed

lemma powr2_nat: "2 powr of_int (int n) = (2::real) ^ n"
  by (simp add: powr_realpow)

lemma powr2_neg_nat: "2 powr of_int (- int n) = 1 / (2::real) ^ n"
  by (simp add: powr_minus powr_realpow inverse_eq_divide)

lemma powr2_nonpos:
  assumes "e \<le> 0"
  shows "2 powr of_int e = 1 / (2::real) ^ nat (- e)"
proof -
  have "e = - int (nat (- e))" using assms by simp
  then show ?thesis using powr2_neg_nat [of "nat (- e)"] by simp
qed

lemma f64_exponent_small:
  assumes "x \<noteq> 0" "\<bar>x\<bar> < 2 ^ j" "j \<le> 53"
  shows "f64_exponent x \<le> int j - 53"
proof -
  have "\<bar>x\<bar> < 2 powr of_int (int j)" using assms(2) by (simp add: powr_realpow)
  then have "\<lfloor>log 2 \<bar>x\<bar>\<rfloor> < int j" by (rule floor_log2_less [OF assms(1)])
  then show ?thesis unfolding f64_exponent_def by simp
qed

lemma f64_round_small:
  assumes "x \<noteq> 0" "\<bar>x\<bar> < 2 ^ j" "j \<le> 53"
  obtains n where "53 - j \<le> n"
    and "f64_round x = Finite (of_int (round_half_even (x * 2 ^ n)) / 2 ^ n)"
proof -
  define e where "e = f64_exponent x"
  define n where "n = nat (- e)"
  have e: "e \<le> int j - 53" unfolding e_def by (rule f64_exponent_small [OF assms])
  then have e0: "e \<le> 0" using assms(3) by simp
  have n: "53 - j \<le> n" using e assms(3) by (simp add: n_def)
  have u: "2 powr of_int e = 1 / (2::real) ^ n"
    unfolding n_def by (rule powr2_nonpos [OF e0])
  define k where "k = round_half_even (x * 2 ^ n)"
  have x53: "\<bar>x\<bar> \<le> 2 ^ 53"
  proof -
    have "(2::real) ^ j \<le> 2 ^ 53" using assms(3) by (intro power_increasing) simp_all
    with assms(2) show ?thesis by linarith
  qed
  have "x * 2 ^ n \<le> of_int (2 ^ 53 * 2 ^ n)"
    using x53 by (simp add: mult_right_mono)
  then have k1: "k \<le> 2 ^ 53 * 2 ^ n" unfolding k_def by (rule rhe_le)
  have "of_int (- (2 ^ 53 * 2 ^ n)) \<le> x * 2 ^ n"
    using x53 mult_right_mono [of "- (2 ^ 53)" x "2 ^ n"] by simp
  then have k2: "- (2 ^ 53 * 2 ^ n) \<le> k" unfolding k_def by (rule rhe_ge)
  have y1: "of_int k / 2 ^ n \<le> (2::real) ^ 53"
  proof -
    have "real_of_int k \<le> of_int (2 ^ 53 * 2 ^ n)" using k1 by (rule iffD2 [OF of_int_le_iff])
    then show ?thesis by (simp add: divide_le_eq)
  qed
  have y2: "- ((2::real) ^ 53) \<le> of_int k / 2 ^ n"
  proof -
    have "real_of_int (- (2 ^ 53 * 2 ^ n)) \<le> of_int k" using k2 by (rule iffD2 [OF of_int_le_iff])
    then show ?thesis by (simp add: le_divide_eq)
  qed
  have big: "(2::real) ^ 53 < f64_huge"
    unfolding f64_huge_def by (intro power_strict_increasing) simp_all
  have yb: "\<not> f64_huge \<le> of_int k / 2 ^ n" "\<not> of_int k / 2 ^ n \<le> - f64_huge"
    using y1 y2 big by linarith+
  have eq: "real_of_int (round_half_even (x / 2 powr of_int (f64_exponent x))) *
        2 powr of_int (f64_exponent x) = of_int k / 2 ^ n"
    using u by (simp add: e_def k_def)
  have "f64_round x = Finite (of_int k / 2 ^ n)"
    by (simp only: f64_round_def Let_def eq assms(1) yb if_False)
  with n show ?thesis using that unfolding k_def by blast
qed

lemma f64_round_zero: "f64_round 0 = Finite 0"
  by (simp add: f64_round_def)

lemma f64_round_int:
  assumes "\<bar>N\<bar> < 2 ^ 53"
  shows "f64_round (of_int N) = Finite (of_int N)"
proof (cases "N = 0")
  case True
  then show ?thesis by (simp add: f64_round_zero)
next
  case False
  then have x: "real_of_int N \<noteq> 0" by simp
  have a: "\<bar>real_of_int N\<bar> < 2 ^ 53"
  proof -
    have "real_of_int \<bar>N\<bar> < of_int (2 ^ 53)" using assms by (rule iffD2 [OF of_int_less_iff])
    then show ?thesis by simp
  qed
  obtain n where r: "f64_round (of_int N) = Finite (of_int (round_half_even (of_int N * 2 ^ n)) / 2 ^ n)"
    using f64_round_small [OF x a] by auto
  have "round_half_even (real_of_int N * 2 ^ n) = round_half_even (of_int (N * 2 ^ n))"
    by simp
  also have "\<dots> = N * 2 ^ n" by (rule rhe_of_int)
  finally have "round_half_even (real_of_int N * 2 ^ n) = N * 2 ^ n" .
  then have "real_of_int (round_half_even (real_of_int N * 2 ^ n)) / 2 ^ n = of_int N"
    by simp
  with r show ?thesis by (simp only:)
qed

lemma f64_round_le_int:
  assumes "x \<noteq> 0" "\<bar>x\<bar> < 2 ^ 53" "x \<le> of_int N"
  obtains y where "f64_round x = Finite y" "y \<le> of_int N"
proof -
  obtain n where r: "f64_round x = Finite (of_int (round_half_even (x * 2 ^ n)) / 2 ^ n)"
    using f64_round_small [OF assms(1,2)] by auto
  have "x * 2 ^ n \<le> of_int (N * 2 ^ n)" using assms(3) by (simp add: mult_right_mono)
  then have "round_half_even (x * 2 ^ n) \<le> N * 2 ^ n" by (rule rhe_le)
  then have "real_of_int (round_half_even (x * 2 ^ n)) \<le> of_int (N * 2 ^ n)"
    by (rule iffD2 [OF of_int_le_iff])
  then have "of_int (round_half_even (x * 2 ^ n)) / 2 ^ n \<le> real_of_int N"
    by (simp add: divide_le_eq)
  with r show ?thesis using that by blast
qed

lemma f64_round_ge_int:
  assumes "x \<noteq> 0" "\<bar>x\<bar> < 2 ^ 53" "of_int N \<le> x"
  obtains y where "f64_round x = Finite y" "of_int N \<le> y"
proof -
  obtain n where r: "f64_round x = Finite (of_int (round_half_even (x * 2 ^ n)) / 2 ^ n)"
    using f64_round_small [OF assms(1,2)] by auto
  have "of_int (N * 2 ^ n) \<le> x * 2 ^ n" using assms(3) by (simp add: mult_right_mono)
  then have "N * 2 ^ n \<le> round_half_even (x * 2 ^ n)" by (rule rhe_ge)
  then have "real_of_int (N * 2 ^ n) \<le> of_int (round_half_even (x * 2 ^ n))"
    by (rule iffD2 [OF of_int_le_iff])
  then have "real_of_int N \<le> of_int (round_half_even (x * 2 ^ n)) / 2 ^ n"
    by (simp add: le_divide_eq)
  with r show ?thesis using that by blast
qed

lemma f64_round_gt_int:
  assumes "x \<noteq> 0" "\<bar>x\<bar> < 2 ^ j" "j \<le> 53" "of_int N + 1 / 2 ^ (54 - j) < x"
  obtains y where "f64_round x = Finite y" "of_int N < y"
proof -
  obtain n where n: "53 - j \<le> n"
    and r: "f64_round x = Finite (of_int (round_half_even (x * 2 ^ n)) / 2 ^ n)"
    using f64_round_small [OF assms(1,2,3)] by auto
  have "54 - j \<le> Suc n" using n assms(3) by simp
  then have "(2::real) ^ (54 - j) \<le> 2 ^ Suc n" by (intro power_increasing) simp_all
  then have "1 / (2::real) ^ Suc n \<le> 1 / 2 ^ (54 - j)"
    by (intro divide_left_mono) simp_all
  with assms(4) have "of_int N + 1 / 2 ^ Suc n < x" by linarith
  then have "(of_int N + 1 / 2 ^ Suc n) * 2 ^ n < x * 2 ^ n"
    by (simp add: mult_strict_right_mono)
  then have "of_int (N * 2 ^ n) + 1 / 2 < x * 2 ^ n"
    by (simp add: distrib_right)
  then have "N * 2 ^ n + 1 \<le> round_half_even (x * 2 ^ n)" by (rule rhe_gt)
  then have "N * 2 ^ n < round_half_even (x * 2 ^ n)" by simp
  then have "real_of_int (N * 2 ^ n) < of_int (round_half_even (x * 2 ^ n))"
    by (rule iffD2 [OF of_int_less_iff])
  then have "real_of_int N < of_int (round_half_even (x * 2 ^ n)) / 2 ^ n"
    by (simp add: less_divide_eq)
  with r show ?thesis using that by blast
qed

lemma f64_huge_pos: "0 < f64_huge"
  by (simp add: f64_huge_def)

lemma f64_round_unfold:
  assumes "x \<noteq> 0"
  shows "f64_round x =
    (if f64_huge \<le> of_int (round_half_even (x / 2 powr of_int (f64_exponent x))) * 2 powr of_int (f64_exponent x)
     then PosInf
     else if of_int (round_half_even (x / 2 powr of_int (f64_exponent x))) * 2 powr of_int (f64_exponent x) \<le> - f64_huge
     then NegInf
     else Finite (of_int (round_half_even (x / 2 powr of_int (f64_exponent x))) * 2 powr of_int (f64_exponent x)))"
  using assms by (simp add: f64_round_def Let_def)

lemma f64_round_nonneg:
  assumes "0 \<le> x"
  shows "f64_round x = PosInf \<or> (\<exists>y. f64_round x = Finite y \<and> 0 \<le> y)"
proof (cases "x = 0")
  case True
  then show ?thesis by (simp add: f64_round_zero)
next
  case False
  define u :: real where "u = 2 powr of_int (f64_exponent x)"
  define k where "k = round_half_even (x / u)"
  have u: "0 < u" by (simp add: u_def)
  have "of_int 0 \<le> x / u" using assms u by simp
  then have "0 \<le> k" unfolding k_def by (rule rhe_ge)
  then have y: "0 \<le> of_int k * u" using u by simp
  then have "\<not> of_int k * u \<le> - f64_huge" using f64_huge_pos by linarith
  then show ?thesis
    using y unfolding f64_round_unfold [OF False] u_def [symmetric] k_def [symmetric] by simp
qed

lemma f64_exponent_big:
  assumes "2 ^ j \<le> \<bar>x\<bar>" "52 \<le> j"
  shows "f64_exponent x = \<lfloor>log 2 \<bar>x\<bar>\<rfloor> - 52" "int j \<le> \<lfloor>log 2 \<bar>x\<bar>\<rfloor>"
proof -
  have "2 powr of_int (int j) \<le> \<bar>x\<bar>" using assms(1) by (simp add: powr_realpow)
  then show j: "int j \<le> \<lfloor>log 2 \<bar>x\<bar>\<rfloor>" by (rule floor_log2_ge)
  with assms(2) show "f64_exponent x = \<lfloor>log 2 \<bar>x\<bar>\<rfloor> - 52"
    unfolding f64_exponent_def by simp
qed

lemma big_quotient:
  assumes "2 ^ j \<le> \<bar>x\<bar>" "52 \<le> j"
  defines "u \<equiv> 2 powr of_int (f64_exponent x)"
  shows "0 < u" "2 ^ 52 \<le> \<bar>x\<bar> / u" "2 ^ j \<le> 2 ^ 52 * u"
proof -
  let ?E = "\<lfloor>log 2 \<bar>x\<bar>\<rfloor>"
  have x: "x \<noteq> 0"
  proof
    assume "x = 0"
    with assms(1) have "(2::real) ^ j \<le> 0" by simp
    moreover have "(0::real) < 2 ^ j" by simp
    ultimately show False by linarith
  qed
  show u: "0 < u" by (simp add: u_def)
  have e: "f64_exponent x = ?E - 52" and j: "int j \<le> ?E"
    using f64_exponent_big [OF assms(1,2)] by simp_all
  have "(2::real) ^ 52 * u = 2 powr 52 * 2 powr (of_int ?E - 52)"
    unfolding u_def e by simp
  also have "\<dots> = 2 powr of_int ?E"
    unfolding powr_add [symmetric] by simp
  finally have p: "(2::real) ^ 52 * u = 2 powr of_int ?E" .
  have "2 powr of_int ?E \<le> \<bar>x\<bar>" by (rule binade(1) [OF x])
  with p have "2 ^ 52 * u \<le> \<bar>x\<bar>" by simp
  then show "2 ^ 52 \<le> \<bar>x\<bar> / u" using u by (simp add: le_divide_eq)
  have "(2::real) powr of_int (int j) \<le> 2 powr of_int ?E" using j by simp
  then show "2 ^ j \<le> 2 ^ 52 * u" unfolding p by (simp add: powr_realpow)
qed

lemma f64_round_big_pos:
  assumes "2 ^ j \<le> x" "52 \<le> j"
  shows "f64_round x = PosInf \<or> (\<exists>y. f64_round x = Finite y \<and> 2 ^ j \<le> y)"
    and "1024 \<le> j \<Longrightarrow> f64_round x = PosInf"
proof -
  define u :: real where "u = 2 powr of_int (f64_exponent x)"
  define k where "k = round_half_even (x / u)"
  have xp: "0 < x"
  proof -
    have "(0::real) < 2 ^ j" by simp
    with assms(1) show ?thesis by linarith
  qed
  then have ax: "2 ^ j \<le> \<bar>x\<bar>" "\<bar>x\<bar> = x" using assms(1) by simp_all
  have u: "0 < u" and q: "2 ^ 52 \<le> \<bar>x\<bar> / u" and p: "2 ^ j \<le> 2 ^ 52 * u"
    using big_quotient [OF ax(1) assms(2)] unfolding u_def by simp_all
  have "of_int (2 ^ 52) \<le> x / u" using q ax(2) by simp
  then have "2 ^ 52 \<le> k" unfolding k_def by (rule rhe_ge)
  then have "real_of_int (2 ^ 52) \<le> of_int k" by (rule iffD2 [OF of_int_le_iff])
  then have "2 ^ 52 * u \<le> of_int k * u" using u by (simp add: mult_right_mono)
  with p have y: "2 ^ j \<le> of_int k * u" by linarith
  have r: "f64_round x = (if f64_huge \<le> of_int k * u then PosInf
      else if of_int k * u \<le> - f64_huge then NegInf else Finite (of_int k * u))"
    using xp unfolding k_def u_def by (intro f64_round_unfold) simp
  have "(0::real) < 2 ^ j" by simp
  with y have "\<not> of_int k * u \<le> - f64_huge" using f64_huge_pos by linarith
  with r y show "f64_round x = PosInf \<or> (\<exists>y. f64_round x = Finite y \<and> 2 ^ j \<le> y)" by simp
  show "f64_round x = PosInf" if "1024 \<le> j"
  proof -
    have "(2::real) ^ 1024 \<le> 2 ^ j" using that by (intro power_increasing) simp_all
    with y have "f64_huge \<le> of_int k * u" unfolding f64_huge_def by linarith
    with r show ?thesis by simp
  qed
qed

lemma f64_round_big_neg:
  assumes "x \<le> - (2 ^ j)" "52 \<le> j"
  shows "f64_round x = NegInf \<or> (\<exists>y. f64_round x = Finite y \<and> y \<le> - (2 ^ j))"
proof -
  define u :: real where "u = 2 powr of_int (f64_exponent x)"
  define k where "k = round_half_even (x / u)"
  have xn: "x < 0"
  proof -
    have "(0::real) < 2 ^ j" by simp
    with assms(1) show ?thesis by linarith
  qed
  then have ax: "2 ^ j \<le> \<bar>x\<bar>" "\<bar>x\<bar> = - x" using assms(1) by simp_all
  have u: "0 < u" and q: "2 ^ 52 \<le> \<bar>x\<bar> / u" and p: "2 ^ j \<le> 2 ^ 52 * u"
    using big_quotient [OF ax(1) assms(2)] unfolding u_def by simp_all
  have "x / u \<le> of_int (- (2 ^ 52))" using q ax(2) by simp
  then have "k \<le> - (2 ^ 52)" unfolding k_def by (rule rhe_le)
  then have "real_of_int k \<le> of_int (- (2 ^ 52))" by (rule iffD2 [OF of_int_le_iff])
  then have "of_int k * u \<le> (- (2 ^ 52)) * u"
    using u by (intro mult_right_mono) simp_all
  then have "of_int k * u \<le> - (2 ^ 52 * u)" by simp
  with p have y: "of_int k * u \<le> - (2 ^ j)" by linarith
  have r: "f64_round x = (if f64_huge \<le> of_int k * u then PosInf
      else if of_int k * u \<le> - f64_huge then NegInf else Finite (of_int k * u))"
    using xn unfolding k_def u_def by (intro f64_round_unfold) simp
  have "(0::real) < 2 ^ j" by simp
  with y have "\<not> f64_huge \<le> of_int k * u" using f64_huge_pos by linarith
  with r y show ?thesis by simp
qed

lemma f64_sqrt_nonneg_class:
  assumes "a = PosInf \<or> (\<exists>y. a = Finite y \<and> 0 \<le> y)"
  shows "f64_sqrt a = PosInf \<or> (\<exists>y. f64_sqrt a = Finite y \<and> 0 \<le> y)"
proof -
  from assms consider "a = PosInf" | y where "a = Finite y" "0 \<le> y" by blast
  then show ?thesis
  proof cases
    case 1
    then show ?thesis by simp
  next
    case 2
    then have "f64_sqrt a = f64_round (sqrt y)" by simp
    moreover have "0 \<le> sqrt y" using 2(2) by simp
    ultimately show ?thesis using f64_round_nonneg [of "sqrt y"] by simp
  qed
qed

lemma np_sqrt_class:
  assumes "0 \<le> n"
  shows "np_sqrt n = PosInf \<or> (\<exists>y. np_sqrt n = Finite y \<and> 0 \<le> y)"
proof -
  have "0 \<le> real_of_int n" using assms by simp
  then have "f64_of_int n = PosInf \<or> (\<exists>y. f64_of_int n = Finite y \<and> 0 \<le> y)"
    unfolding f64_of_int_def by (rule f64_round_nonneg)
  then show ?thesis unfolding np_sqrt_def by (rule f64_sqrt_nonneg_class)
qed

lemma np_sqrt_not_nan: "0 \<le> n \<Longrightarrow> np_sqrt n \<noteq> NaN"
  using np_sqrt_class [of n] by auto

lemma np_sqrt_small:
  assumes "0 \<le> n" "n < 2 ^ 53"
  shows "np_sqrt n = f64_round (sqrt (of_int n))"
proof -
  have "\<bar>n\<bar> < 2 ^ 53" using assms by simp
  then have "f64_of_int n = Finite (of_int n)"
    unfolding f64_of_int_def by (rule f64_round_int)
  then show ?thesis using assms(1) by (simp add: np_sqrt_def)
qed

lemma radius_square_bound:
  fixes r :: int
  assumes "0 \<le> r" "r < 2 ^ 26"
  shows "2 * (r * r) < 2 ^ 53"
proof -
  have "r \<le> 2 ^ 26 - 1" using assms(2) by simp
  then have "r * r \<le> (2 ^ 26 - 1) * (2 ^ 26 - 1)"
    using assms(1) by (intro mult_mono) simp_all
  then show ?thesis by simp
qed

lemma sqrt_gap:
  fixes r n :: int
  assumes "0 \<le> r" "r < 2 ^ 26" "r * r < n"
  shows "of_int r + 1 / 2 ^ 27 < sqrt (of_int n)"
proof (rule real_less_rsqrt)
  have r: "real_of_int r \<le> 2 ^ 26 - 1"
  proof -
    have "r \<le> 2 ^ 26 - 1" using assms(2) by simp
    then have "real_of_int r \<le> of_int (2 ^ 26 - 1)" by (rule iffD2 [OF of_int_le_iff])
    then show ?thesis by simp
  qed
  have "r * r + 1 \<le> n" using assms(3) by simp
  then have "real_of_int (r * r + 1) \<le> of_int n" by (rule iffD2 [OF of_int_le_iff])
  then have n: "real_of_int r * real_of_int r + 1 \<le> of_int n" by simp
  have e: "(real_of_int r + 1 / 2 ^ 27)\<^sup>2 =
      real_of_int r * real_of_int r + real_of_int r / 2 ^ 26 + 1 / 2 ^ 54"
    by (simp add: power2_eq_square algebra_simps)
  have "real_of_int r / 2 ^ 26 \<le> (2 ^ 26 - 1) / 2 ^ 26"
    using r by (intro divide_right_mono) simp_all
  then have "real_of_int r / 2 ^ 26 + 1 / 2 ^ 54 < 1" by simp
  with n show "(real_of_int r + 1 / 2 ^ 27)\<^sup>2 < real_of_int n"
    unfolding e by linarith
qed

lemma np_sqrt_le_iff:
  assumes "0 \<le> r" "r < 2 ^ 26" "0 \<le> n" "n \<le> 2 * (r * r)"
  shows "fle (np_sqrt n) (Finite (of_int r)) \<longleftrightarrow> n \<le> r * r"
proof (cases "n = 0")
  case True
  then show ?thesis using assms(1) by (simp add: np_sqrt_small f64_round_zero)
next
  case False
  with assms(3) have n1: "1 \<le> n" by simp
  have n53: "n < 2 ^ 53" using radius_square_bound [OF assms(1,2)] assms(4) by linarith
  have s: "np_sqrt n = f64_round (sqrt (of_int n))"
    by (rule np_sqrt_small [OF assms(3) n53])
  have "real_of_int 1 \<le> of_int n" using n1 by (rule iffD2 [OF of_int_le_iff])
  then have x1: "1 \<le> sqrt (real_of_int n)" by simp
  then have x0: "sqrt (real_of_int n) \<noteq> 0" by linarith
  have "real_of_int n < of_int (2 ^ 53)" using n53 by (rule iffD2 [OF of_int_less_iff])
  then have "real_of_int n < (2 ^ 27)\<^sup>2" by simp
  then have "sqrt (real_of_int n) < 2 ^ 27" by (intro real_less_lsqrt) simp_all
  with x1 have x27: "\<bar>sqrt (real_of_int n)\<bar> < 2 ^ 27" by simp
  then have x53: "\<bar>sqrt (real_of_int n)\<bar> < 2 ^ 53" by simp
  show ?thesis
  proof (cases "n \<le> r * r")
    case True
    then have "real_of_int n \<le> of_int (r * r)" by (rule iffD2 [OF of_int_le_iff])
    then have "real_of_int n \<le> (real_of_int r)\<^sup>2" by (simp add: power2_eq_square)
    then have "sqrt (real_of_int n) \<le> of_int r"
      using assms(1) by (intro real_le_lsqrt) simp_all
    then obtain y where "f64_round (sqrt (of_int n)) = Finite y" "y \<le> of_int r"
      using f64_round_le_int [OF x0 x53] by blast
    with True show ?thesis by (simp add: s)
  next
    case False
    then have "r * r < n" by simp
    then have "of_int r + 1 / 2 ^ 27 < sqrt (real_of_int n)"
      by (rule sqrt_gap [OF assms(1,2)])
    then have "of_int r + 1 / 2 ^ (54 - 27) < sqrt (real_of_int n)" by simp
    then obtain y where "f64_round (sqrt (of_int n)) = Finite y" "of_int r < y"
      using f64_round_gt_int [OF x0 x27, of r] by auto
    with False show ?thesis by (simp add: s)
  qed
qed

lemma f64_of_int_exact: "\<bar>n\<bar> < 2 ^ 53 \<Longrightarrow> f64_of_int n = Finite (of_int n)"
  unfolding f64_of_int_def by (rule f64_round_int)

lemma fold_add_exact:
  assumes "\<forall>v \<in> set cs. 0 \<le> v \<and> v \<le> 255" "0 \<le> a" "a + 255 * int (length cs) < 2 ^ 53"
  shows "fold (\<lambda>v acc. f64_add acc (f64_of_int v)) cs (Finite (of_int a)) =
     Finite (of_int (a + sum_list cs))"
  using assms
proof (induction cs arbitrary: a)
  case Nil
  then show ?case by simp
next
  case (Cons v cs)
  have v: "0 \<le> v" "v \<le> 255" using Cons.prems(1) by simp_all
  have b: "a + v + 255 * int (length cs) < 2 ^ 53" using Cons.prems(3) v by simp
  have "\<bar>v\<bar> < 2 ^ 53" using v by simp
  then have fv: "f64_of_int v = Finite (of_int v)" by (rule f64_of_int_exact)
  have "\<bar>a + v\<bar> < 2 ^ 53" using Cons.prems(2) v b by simp
  then have "f64_round (of_int (a + v)) = Finite (of_int (a + v))" by (rule f64_round_int)
  then have st: "f64_add (Finite (of_int a)) (f64_of_int v) = Finite (of_int (a + v))"
    by (simp add: fv)
  have "fold (\<lambda>v acc. f64_add acc (f64_of_int v)) cs (Finite (of_int (a + v))) =
     Finite (of_int (a + v + sum_list cs))"
    using Cons.prems(1,2) v b by (intro Cons.IH) simp_all
  then show ?case by (simp add: st add.assoc)
qed

lemma sum_list_upper:
  "\<forall>v \<in> set cs. v \<le> (255::int) \<Longrightarrow> sum_list cs \<le> 255 * int (length cs)"
  by (induction cs) auto

lemma sum_list_lower: "\<forall>v \<in> set cs. (0::int) \<le> v \<Longrightarrow> 0 \<le> sum_list cs"
  by (induction cs) auto

lemma np_mean_empty: "np_mean [] = NaN"
  by (simp add: np_mean_def f64_of_int_def f64_round_zero)

lemma np_mean_exact:
  assumes "\<forall>v \<in> set cs. 0 \<le> v \<and> v \<le> 255" "cs \<noteq> []" "length cs < 2 ^ 45"
  shows "np_mean cs = f64_round (of_int (sum_list cs) / of_nat (length cs))"
proof -
  have "int (length cs) < int (2 ^ 45)" using assms(3) by (rule iffD2 [OF of_nat_less_iff])
  then have k: "int (length cs) < 2 ^ 45" by simp
  then have b: "0 + 255 * int (length cs) < 2 ^ 53" by simp
  have t: "fold (\<lambda>v acc. f64_add acc (f64_of_int v)) cs (Finite 0) = Finite (of_int (sum_list cs))"
    using fold_add_exact [OF assms(1) _ b] by simp
  have "\<bar>int (length cs)\<bar> < 2 ^ 53" using k by simp
  then have c: "f64_of_int (int (length cs)) = Finite (of_nat (length cs))"
    using f64_of_int_exact [of "int (length cs)"] by simp
  show ?thesis using assms(2) by (simp add: np_mean_def t c)
qed

lemma mean_bounds:
  assumes "\<forall>v \<in> set cs. 0 \<le> v \<and> v \<le> 255" "cs \<noteq> []"
  shows "0 \<le> real_of_int (sum_list cs) / real (length cs)"
    and "real_of_int (sum_list cs) / real (length cs) \<le> 255"
proof -
  have n: "0 < real (length cs)" using assms(2) by simp
  have "0 \<le> sum_list cs" using assms(1) by (simp add: sum_list_lower)
  then show "0 \<le> real_of_int (sum_list cs) / real (length cs)" by simp
  have "sum_list cs \<le> 255 * int (length cs)" using assms(1) by (simp add: sum_list_upper)
  then have "real_of_int (sum_list cs) \<le> real_of_int (255 * int (length cs))"
    by (rule iffD2 [OF of_int_le_iff])
  then have "real_of_int (sum_list cs) \<le> 255 * real (length cs)" by simp
  then show "real_of_int (sum_list cs) / real (length cs) \<le> 255"
    using n by (simp add: divide_le_eq)
qed

lemma np_mean_le_int:
  assumes "\<forall>v \<in> set cs. 0 \<le> v \<and> v \<le> 255" "cs \<noteq> []" "length cs < 2 ^ 45"
    and "real_of_int (sum_list cs) / real (length cs) \<le> of_int N"
  obtains y where "np_mean cs = Finite y" "0 \<le> y" "y \<le> of_int N"
proof -
  let ?m = "real_of_int (sum_list cs) / real (length cs)"
  note mb = mean_bounds [OF assms(1,2)]
  have r: "np_mean cs = f64_round ?m" by (rule np_mean_exact [OF assms(1,2,3)])
  show ?thesis
  proof (cases "?m = 0")
    case True
    with r assms(4) have "np_mean cs = Finite 0" "(0::real) \<le> of_int N"
      by (simp_all add: f64_round_zero)
    then show ?thesis using that by simp
  next
    case False
    have "\<bar>?m\<bar> < 2 ^ 53" using mb by simp
    then obtain y where y: "f64_round ?m = Finite y" "y \<le> of_int N"
      using f64_round_le_int [OF False _ assms(4)] by blast
    moreover have "0 \<le> y" using f64_round_nonneg [OF mb(1)] y(1) by simp
    ultimately show ?thesis using that r by simp
  qed
qed

lemma np_mean_gt_int:
  assumes "\<forall>v \<in> set cs. 0 \<le> v \<and> v \<le> 255" "cs \<noteq> []" "length cs < 2 ^ 45"
    and "of_int N < real_of_int (sum_list cs) / real (length cs)"
  obtains y where "np_mean cs = Finite y" "of_int N < y"
proof -
  let ?s = "sum_list cs" and ?k = "length cs"
  let ?m = "real_of_int ?s / real ?k"
  note mb = mean_bounds [OF assms(1,2)]
  have r: "np_mean cs = f64_round ?m" by (rule np_mean_exact [OF assms(1,2,3)])
  have k0: "0 < real ?k" using assms(2) by simp
  have "real_of_int N * real ?k < real_of_int ?s"
    using assms(4) k0 by (simp add: less_divide_eq)
  then have "real_of_int (N * int ?k) < real_of_int ?s" by simp
  then have "N * int ?k < ?s" by (rule iffD1 [OF of_int_less_iff])
  then have "N * int ?k + 1 \<le> ?s" by simp
  then have "real_of_int (N * int ?k + 1) \<le> real_of_int ?s" by (rule iffD2 [OF of_int_le_iff])
  then have "real_of_int N * real ?k + 1 \<le> real_of_int ?s" by simp
  then have "(real_of_int N * real ?k + 1) / real ?k \<le> ?m"
    using k0 by (intro divide_right_mono) simp_all
  then have g: "real_of_int N + 1 / real ?k \<le> ?m"
    using k0 by (simp add: add_divide_distrib)
  have "real ?k < 2 ^ 46"
  proof -
    have "real ?k < real (2 ^ 45)" using assms(3) by (rule iffD2 [OF of_nat_less_iff])
    then show ?thesis by simp
  qed
  then have "1 / (2::real) ^ 46 < 1 / real ?k"
    using k0 by (intro divide_strict_left_mono) simp_all
  with g have gap: "of_int N + 1 / 2 ^ (54 - 8) < ?m" by simp
  show ?thesis
  proof (cases "?m = 0")
    case True
    with r assms(4) have "np_mean cs = Finite 0" "real_of_int N < 0"
      by (simp_all add: f64_round_zero)
    then show ?thesis using that by simp
  next
    case False
    have "\<bar>?m\<bar> < 2 ^ 8" using mb by simp
    then obtain y where "f64_round ?m = Finite y" "of_int N < y"
      using f64_round_gt_int [OF False _ _ gap] by auto
    then show ?thesis using that r by simp
  qed
qed

lemma threshold_negative:
  assumes "t < 0" "f64_round (of_int t) = Finite tf"
  shows "tf < 0"
proof (cases "\<bar>t\<bar> < 2 ^ 53")
  case True
  then have "f64_round (of_int t) = Finite (of_int t)" by (rule f64_round_int)
  with assms show ?thesis by simp
next
  case False
  with assms(1) have "t \<le> - (2 ^ 53)" by simp
  then have "real_of_int t \<le> of_int (- (2 ^ 53))" by (rule iffD2 [OF of_int_le_iff])
  then have "real_of_int t \<le> - (2 ^ 53)" by simp
  then have "f64_round (of_int t) = NegInf \<or> (\<exists>y. f64_round (of_int t) = Finite y \<and> y \<le> - (2 ^ 53))"
    by (intro f64_round_big_neg) simp_all
  with assms(2) show ?thesis by auto
qed

lemma threshold_large:
  assumes "255 \<le> t" "f64_round (of_int t) = Finite tf"
  shows "255 \<le> tf"
proof (cases "\<bar>t\<bar> < 2 ^ 53")
  case True
  then have "f64_round (of_int t) = Finite (of_int t)" by (rule f64_round_int)
  with assms show ?thesis by simp
next
  case False
  with assms(1) have "2 ^ 53 \<le> t" by simp
  then have "real_of_int (2 ^ 53) \<le> of_int t" by (rule iffD2 [OF of_int_le_iff])
  then have "2 ^ 53 \<le> real_of_int t" by simp
  then have "f64_round (of_int t) = PosInf \<or> (\<exists>y. f64_round (of_int t) = Finite y \<and> 2 ^ 53 \<le> y)"
    by (intro f64_round_big_pos) simp_all
  with assms(2) show ?thesis by auto
qed

lemma flt_threshold_mean:
  assumes "\<forall>v \<in> set cs. 0 \<le> v \<and> v \<le> 255" "cs \<noteq> []" "length cs < 2 ^ 45"
    and "f64_round (of_int t) = Finite tf"
  shows "flt (Finite tf) (np_mean cs) \<longleftrightarrow>
     real_of_int t < real_of_int (sum_list cs) / real (length cs)"
proof -
  let ?m = "real_of_int (sum_list cs) / real (length cs)"
  note mb = mean_bounds [OF assms(1,2)]
  consider "t < 0" | "255 \<le> t" | "0 \<le> t" "t < 255" by linarith
  then show ?thesis
  proof cases
    case 1
    then have tf: "tf < 0" using assms(4) by (rule threshold_negative)
    have "?m \<le> of_int 255" using mb(2) by simp
    then obtain y where "np_mean cs = Finite y" "0 \<le> y"
      using np_mean_le_int [OF assms(1,2,3)] by blast
    moreover have "real_of_int t < ?m" using 1 mb(1) by (simp add: less_le_trans)
    ultimately show ?thesis using tf by simp
  next
    case 2
    then have tf: "255 \<le> tf" using assms(4) by (rule threshold_large)
    have "?m \<le> of_int 255" using mb(2) by simp
    then obtain y where "np_mean cs = Finite y" "y \<le> of_int 255"
      using np_mean_le_int [OF assms(1,2,3)] by blast
    moreover have "\<not> real_of_int t < ?m"
    proof -
      have "real_of_int 255 \<le> of_int t" using 2 by (rule iffD2 [OF of_int_le_iff])
      with mb(2) show ?thesis by simp
    qed
    ultimately show ?thesis using tf by simp
  next
    case 3
    then have "\<bar>t\<bar> < 2 ^ 53" by simp
    then have "f64_round (of_int t) = Finite (of_int t)" by (rule f64_round_int)
    with assms(4) have tf: "tf = of_int t" by simp
    show ?thesis
    proof (cases "real_of_int t < ?m")
      case True
      then obtain y where "np_mean cs = Finite y" "of_int t < y"
        using np_mean_gt_int [OF assms(1,2,3)] by blast
      with True tf show ?thesis by simp
    next
      case False
      then have "?m \<le> of_int t" by simp
      then obtain y where "np_mean cs = Finite y" "y \<le> of_int t"
        using np_mean_le_int [OF assms(1,2,3)] by blast
      with False tf show ?thesis by simp
    qed
  qed
qed

lemma f64_exponent_eq:
  assumes "2 powr of_int E \<le> \<bar>x\<bar>" "\<bar>x\<bar> < 2 powr (of_int E + 1)" "- 1022 \<le> E"
  shows "f64_exponent x = E - 52"
proof -
  have "0 < \<bar>x\<bar>" using assms(1) powr_gt_zero [of 2 "of_int E"] by linarith
  then have "\<lfloor>log 2 \<bar>x\<bar>\<rfloor> = E"
    using floor_log_eq_powr_iff [of "\<bar>x\<bar>" 2 E] assms(1,2) by simp
  then show ?thesis using assms(3) by (simp add: f64_exponent_def)
qed

lemma rhe_tie_even: "even n \<Longrightarrow> round_half_even (of_int n + 1 / 2) = n"
proof -
  assume n: "even n"
  have "\<lfloor>real_of_int n + 1 / 2\<rfloor> = n" by linarith
  then show ?thesis using n by (simp add: round_half_even_def Let_def)
qed

lemma f64_huge_gt: "2 ^ 53 < f64_huge"
  unfolding f64_huge_def by (intro power_strict_increasing) simp_all

text \<open>The square root of \<open>2^52 + 1\<close> rounds to \<open>2^26\<close>.\<close>

lemma f64_round_sqrt_tie:
  "f64_round (sqrt 4503599627370497) = Finite 67108864"
proof -
  let ?x = "sqrt (4503599627370497::real)"
  have lo: "67108864 \<le> ?x" by (rule real_le_rsqrt) simp
  have hi: "?x < 67108864 + 1 / 2 ^ 27"
    by (rule real_less_lsqrt) (simp_all add: power2_eq_square algebra_simps)
  have x0: "?x \<noteq> 0" using lo by linarith
  have ax: "\<bar>?x\<bar> = ?x" using lo by simp
  have "(2::real) powr of_int 26 \<le> \<bar>?x\<bar>" using lo ax by simp
  moreover have "\<bar>?x\<bar> < 2 powr (of_int 26 + 1)" using hi ax by simp
  ultimately have e: "f64_exponent ?x = - 26"
    using f64_exponent_eq [of 26 ?x] by simp
  have u: "(2::real) powr of_int (- 26) = 1 / 2 ^ 26"
    using powr2_nonpos [of "- 26"] by simp
  have q: "?x / (1 / 2 ^ 26) = ?x * 67108864" by simp
  have "of_int 4503599627370496 \<le> ?x * 67108864" using lo by simp
  then have k1: "4503599627370496 \<le> round_half_even (?x * 67108864)" by (rule rhe_ge)
  have "?x * 67108864 < of_int 4503599627370496 + 1 / 2" using hi by simp
  then have k2: "round_half_even (?x * 67108864) \<le> 4503599627370496" by (rule rhe_lt)
  from k1 k2 have k: "round_half_even (?x * 67108864) = 4503599627370496" by simp
  have y: "real_of_int (round_half_even (?x / 2 powr of_int (f64_exponent ?x))) *
      2 powr of_int (f64_exponent ?x) = 67108864"
    unfolding e u q k by simp
  have "\<not> f64_huge \<le> 67108864" "\<not> (67108864::real) \<le> - f64_huge"
    using f64_huge_gt by simp_all
  then show ?thesis
    unfolding f64_round_unfold [OF x0] y by simp
qed

text \<open>\<open>2^53\<close> is a float; \<open>2^53 + 1\<close> is not, and rounds to \<open>2^53\<close> (a tie, to the even mantissa).\<close>

lemma f64_exponent_53:
  assumes "9007199254740992 \<le> x" "x < 18014398509481984"
  shows "f64_exponent x = 1"
proof -
  have "(2::real) powr of_int 53 \<le> \<bar>x\<bar>" using assms by simp
  moreover have "\<bar>x\<bar> < 2 powr (of_int 53 + 1)" using assms by simp
  ultimately show ?thesis using f64_exponent_eq [of 53 x] by simp
qed

lemma f64_round_2_53: "f64_round 9007199254740992 = Finite 9007199254740992"
proof -
  let ?x = "9007199254740992::real"
  have e: "f64_exponent ?x = 1" by (rule f64_exponent_53) simp_all
  have "round_half_even (?x / 2) = round_half_even (of_int 4503599627370496)" by simp
  then have k: "round_half_even (?x / 2) = 4503599627370496" by (simp only: rhe_of_int)
  have y: "real_of_int (round_half_even (?x / 2 powr of_int (f64_exponent ?x))) *
      2 powr of_int (f64_exponent ?x) = ?x"
    unfolding e using k by simp
  have "\<not> f64_huge \<le> ?x" "\<not> ?x \<le> - f64_huge"
    using f64_huge_gt by simp_all
  then show ?thesis
    unfolding f64_round_unfold [of ?x, simplified] y by simp
qed

lemma f64_round_2_53_plus_1: "f64_round 9007199254740993 = Finite 9007199254740992"
proof -
  let ?x = "9007199254740993::real"
  have e: "f64_exponent ?x = 1" by (rule f64_exponent_53) simp_all
  have "round_half_even (?x / 2) = round_half_even (of_int 4503599627370496 + 1 / 2)" by simp
  also have "\<dots> = 4503599627370496" by (rule rhe_tie_even) simp
  finally have k: "round_half_even (?x / 2) = 4503599627370496" .
  have y: "real_of_int (round_half_even (?x / 2 powr of_int (f64_exponent ?x))) *
      2 powr of_int (f64_exponent ?x) = 9007199254740992"
    unfolding e using k by simp
  have "\<not> f64_huge \<le> 9007199254740992" "\<not> (9007199254740992::real) \<le> - f64_huge"
    using f64_huge_gt by simp_all
  then show ?thesis
    unfolding f64_round_unfold [of ?x, simplified] y by simp
qed

lemma f64_of_pyint_overflow: "f64_of_pyint (2 ^ 1024) = Inl OverflowError"
proof -
  have "real_of_int (2 ^ 1024) = 2 ^ 1024" by (simp only: of_int_power of_int_numeral)
  then have "(2::real) ^ 1024 \<le> real_of_int (2 ^ 1024)" by (simp only: order_refl)
  then have "f64_round (real_of_int (2 ^ 1024)) = PosInf"
    by (rule f64_round_big_pos(2)) simp_all
  then show ?thesis by (simp only: f64_of_pyint_def npfloat.case)
qed

lemma f64_of_pyint_small:
  assumes "\<bar>t\<bar> < 2 ^ 53"
  shows "f64_of_pyint t = Inr (Finite (of_int t))"
  using f64_round_int [OF assms] by (simp add: f64_of_pyint_def)

lemma f64_of_pyint_cases:
  obtains "f64_of_pyint t = Inl OverflowError"
  | tf where "f64_of_pyint t = Inr (Finite tf)" "f64_round (of_int t) = Finite tf"
  by (cases "f64_round (real_of_int t)") (auto simp: f64_of_pyint_def)

section \<open>Properties of the shallow-water generator\<close>

lemma py_min_fle:
  assumes "a \<noteq> NaN" "b \<noteq> NaN"
  shows "py_min a b \<noteq> NaN \<and>
     (fle (py_min a b) (Finite c) \<longleftrightarrow> fle a (Finite c) \<or> fle b (Finite c))"
  using assms by (cases a; cases b) (auto simp: py_min_def)


lemma np_sqrt_squares: "np_sqrt (dx * dx + dy * dy) \<noteq> NaN"
  by (rule np_sqrt_not_nan) (rule sum_squares_ge_zero)

lemma scan_offset_fle:
  assumes "md \<noteq> NaN"
  shows "scan_offset m h w y x dy dx md \<noteq> NaN \<and>
     (fle (scan_offset m h w y x dy dx md) (Finite c) \<longleftrightarrow>
        fle md (Finite c) \<or>
        (land_at_offset m h w y x dy dx \<and> fle (np_sqrt (dx * dx + dy * dy)) (Finite c)))"
proof (cases "land_at_offset m h w y x dy dx")
  case True
  then have "scan_offset m h w y x dy dx md = py_min md (np_sqrt (dx * dx + dy * dy))"
    by (simp add: scan_offset_def land_at_offset_def Let_def)
  with True show ?thesis
    using py_min_fle [OF assms np_sqrt_squares, of dx dy c] by simp
next
  case False
  then have "scan_offset m h w y x dy dx md = md"
    unfolding scan_offset_def land_at_offset_def Let_def by auto
  with False assms show ?thesis by simp
qed

lemma fold_dx_fle:
  "md \<noteq> NaN \<Longrightarrow>
     fold (\<lambda>dx md. scan_offset m h w y x dy dx md) dxs md \<noteq> NaN \<and>
     (fle (fold (\<lambda>dx md. scan_offset m h w y x dy dx md) dxs md) (Finite c) \<longleftrightarrow>
        fle md (Finite c) \<or>
        (\<exists>dx \<in> set dxs. land_at_offset m h w y x dy dx \<and> fle (np_sqrt (dx * dx + dy * dy)) (Finite c)))"
proof (induction dxs arbitrary: md)
  case Nil
  then show ?case by simp
next
  case (Cons d dxs)
  from scan_offset_fle [OF Cons.prems, of m h w y x dy d c]
  have a: "scan_offset m h w y x dy d md \<noteq> NaN"
    and b: "fle (scan_offset m h w y x dy d md) (Finite c) \<longleftrightarrow>
        fle md (Finite c) \<or> (land_at_offset m h w y x dy d \<and> fle (np_sqrt (d * d + dy * dy)) (Finite c))"
    by blast+
  from Cons.IH [OF a] b show ?case by auto
qed

lemma fold_dy_fle:
  "md \<noteq> NaN \<Longrightarrow>
     fold (\<lambda>dy md. fold (\<lambda>dx md. scan_offset m h w y x dy dx md) dxs md) dys md \<noteq> NaN \<and>
     (fle (fold (\<lambda>dy md. fold (\<lambda>dx md. scan_offset m h w y x dy dx md) dxs md) dys md) (Finite c) \<longleftrightarrow>
        fle md (Finite c) \<or>
        (\<exists>dy \<in> set dys. \<exists>dx \<in> set dxs. land_at_offset m h w y x dy dx \<and> fle (np_sqrt (dx * dx + dy * dy)) (Finite c)))"
proof (induction dys arbitrary: md)
  case Nil
  then show ?case by simp
next
  case (Cons d dys)
  from fold_dx_fle [OF Cons.prems, of m h w y x d dxs c]
  have a: "fold (\<lambda>dx md. scan_offset m h w y x d dx md) dxs md \<noteq> NaN"
    and b: "fle (fold (\<lambda>dx md. scan_offset m h w y x d dx md) dxs md) (Finite c) \<longleftrightarrow>
        fle md (Finite c) \<or>
        (\<exists>dx \<in> set dxs. land_at_offset m h w y x d dx \<and> fle (np_sqrt (dx * dx + d * d)) (Finite c))"
    by blast+
  from Cons.IH [OF a] b show ?case by auto
qed

lemma scan_window_fle:
  "fle (scan_window m h w r y x) (Finite (of_int r)) \<longleftrightarrow>
     (\<exists>dy \<in> set (py_range (- r) (r + 1)). \<exists>dx \<in> set (py_range (- r) (r + 1)).
        land_at_offset m h w y x dy dx \<and> fle (np_sqrt (dx * dx + dy * dy)) (Finite (of_int r)))"
  using fold_dy_fle [of PosInf m h w y x "py_range (- r) (r + 1)" "py_range (- r) (r + 1)" "of_int r"]
  by (simp add: scan_window_def)

lemma scan_window_hit:
  "fle (scan_window m (height m) (width m) r y x) (Finite (of_int r)) \<longleftrightarrow> window_hit m r y x"
  unfolding scan_window_fle by (simp add: window_hit_def list_ex_iff)

lemma window_hit_alt:
  "window_hit m r y x \<longleftrightarrow>
     (\<exists>dy dx. - r \<le> dy \<and> dy \<le> r \<and> - r \<le> dx \<and> dx \<le> r \<and>
        land_at_offset m (height m) (width m) y x dy dx \<and>
        fle (np_sqrt (dx * dx + dy * dy)) (Finite (of_int r)))" (is "?L \<longleftrightarrow> ?R")
proof
  assume ?L
  then obtain dy dx where m: "dy \<in> set (py_range (- r) (r + 1))" "dx \<in> set (py_range (- r) (r + 1))"
    and p: "land_at_offset m (height m) (width m) y x dy dx"
      "fle (np_sqrt (dx * dx + dy * dy)) (Finite (of_int r))"
    unfolding window_hit_def list_ex_iff by blast
  from m have "- r \<le> dy" "dy \<le> r" "- r \<le> dx" "dx \<le> r"
    by (simp_all add: py_range_def)
  with p show ?R by blast
next
  assume ?R
  then obtain dy dx where b: "- r \<le> dy" "dy \<le> r" "- r \<le> dx" "dx \<le> r"
    and p: "land_at_offset m (height m) (width m) y x dy dx"
      "fle (np_sqrt (dx * dx + dy * dy)) (Finite (of_int r))"
    by blast
  from b have "dy \<in> set (py_range (- r) (r + 1))" "dx \<in> set (py_range (- r) (r + 1))"
    by (simp_all add: py_range_def)
  with p show ?L unfolding window_hit_def list_ex_iff by blast
qed


lemma sqrt_le_int_iff:
  "0 \<le> r \<Longrightarrow> 0 \<le> n \<Longrightarrow> sqrt (of_int n) \<le> of_int r \<longleftrightarrow> n \<le> r * r"
proof -
  assume r: "0 \<le> r" and n: "0 \<le> n"
  have "sqrt (of_int n) \<le> of_int r \<longleftrightarrow> sqrt (of_int n) \<le> sqrt (of_int (r * r))"
    using r by (simp add: real_sqrt_mult)
  also have "\<dots> \<longleftrightarrow> (of_int n :: real) \<le> of_int (r * r)"
    by (rule real_sqrt_le_iff)
  also have "\<dots> \<longleftrightarrow> n \<le> r * r"
    by (rule of_int_le_iff)
  finally show ?thesis .
qed

lemma square_le_imp_abs_le:
  fixes d r :: int
  assumes "0 \<le> r" "d * d + e * e \<le> r * r"
  shows "- r \<le> d \<and> d \<le> r"
proof -
  have "0 \<le> e * e" by simp
  with assms have dd: "d * d \<le> r * r" by linarith
  have "\<bar>d\<bar> \<le> \<bar>r\<bar>"
    using dd by (simp add: abs_le_square_iff power2_eq_square)
  with assms(1) show ?thesis by linarith
qed

lemma near_land_alt:
  "near_land m r y x \<longleftrightarrow>
     0 \<le> r \<and> (\<exists>ny nx. ny < height m \<and> nx < width m \<and> m ! ny ! nx \<and> sqdist y x ny nx \<le> r * r)"
  by (simp add: near_land_def list_ex_iff Bex_def)

lemma square_le_square:
  fixes d r :: int
  assumes "- r \<le> d" "d \<le> r"
  shows "d * d \<le> r * r"
proof -
  have "\<bar>d\<bar> \<le> \<bar>r\<bar>" using assms by linarith
  then show ?thesis by (simp add: abs_le_square_iff power2_eq_square)
qed

lemma window_hit_iff_near_land:
  assumes "y < height m" "x < width m" "r < 2 ^ 26"
  shows "window_hit m r y x \<longleftrightarrow> near_land m r y x" (is "?L \<longleftrightarrow> ?R")
proof
  assume ?L
  then obtain dy dx where dy: "- r \<le> dy" "dy \<le> r" and dx: "- r \<le> dx" "dx \<le> r"
    and h: "land_at_offset m (height m) (width m) y x dy dx"
    and s: "fle (np_sqrt (dx * dx + dy * dy)) (Finite (of_int r))"
    unfolding window_hit_alt by blast
  from dy have r: "0 \<le> r" by linarith
  have nn: "0 \<le> dx * dx + dy * dy" by simp
  have "dx * dx \<le> r * r" "dy * dy \<le> r * r"
    using square_le_square [OF dx] square_le_square [OF dy] by simp_all
  then have nb: "dx * dx + dy * dy \<le> 2 * (r * r)" by linarith
  from s have le: "dx * dx + dy * dy \<le> r * r"
    using np_sqrt_le_iff [OF r assms(3) nn nb] by simp
  define ny where "ny = nat (int y + dy)"
  define nx where "nx = nat (int x + dx)"
  from h have ny: "ny < height m" "int ny - int y = dy" and nx: "nx < width m" "int nx - int x = dx"
    and l: "m ! ny ! nx"
    by (auto simp: land_at_offset_def ny_def nx_def)
  from le ny(2) nx(2) have "sqdist y x ny nx \<le> r * r"
    by (simp add: sqdist_def)
  with r ny(1) nx(1) l show ?R
    unfolding near_land_alt by blast
next
  assume ?R
  then obtain ny nx where r: "0 \<le> r" and ny: "ny < height m" and nx: "nx < width m"
    and l: "m ! ny ! nx"
    and le: "sqdist y x ny nx \<le> r * r"
    unfolding near_land_alt by blast
  define dy where "dy = int ny - int y"
  define dx where "dx = int nx - int x"
  from le have le': "dx * dx + dy * dy \<le> r * r" by (simp add: dx_def dy_def sqdist_def)
  have bx: "- r \<le> dx \<and> dx \<le> r" using square_le_imp_abs_le [OF r le'] .
  from le' have "dy * dy + dx * dx \<le> r * r" by simp
  then have "by": "- r \<le> dy \<and> dy \<le> r" using square_le_imp_abs_le [OF r] by blast
  have nn: "0 \<le> dx * dx + dy * dy" by simp
  have "0 \<le> r * r" by simp
  with le' have nb: "dx * dx + dy * dy \<le> 2 * (r * r)" by linarith
  have h: "land_at_offset m (height m) (width m) y x dy dx"
    using ny nx l by (simp add: land_at_offset_def dx_def dy_def)
  have s: "fle (np_sqrt (dx * dx + dy * dy)) (Finite (of_int r))"
    using np_sqrt_le_iff [OF r assms(3) nn nb] le' by simp
  show ?L
    unfolding window_hit_alt using bx "by" h s by blast
qed

lemma euclid_sqdist: "euclid y x ny nx = sqrt (of_int (sqdist y x ny nx))"
  by (simp add: euclid_def sqdist_def power2_eq_square)

lemma sqdist_nonneg: "0 \<le> sqdist y x ny nx"
  by (simp add: sqdist_def)

lemma euclid_le_iff:
  "0 \<le> r \<Longrightarrow> euclid y x ny nx \<le> of_int r \<longleftrightarrow> sqdist y x ny nx \<le> r * r"
  unfolding euclid_sqdist by (rule sqrt_le_int_iff [OF _ sqdist_nonneg])

lemma near_land_iff_land_within:
  "near_land m r y x \<longleftrightarrow> land_within m (of_int r) y x"
proof (cases "0 \<le> r")
  case True
  then show ?thesis
    unfolding near_land_alt land_within_def by (auto simp: euclid_le_iff)
next
  case False
  have "\<And>ny nx. 0 \<le> euclid y x ny nx" by (simp add: euclid_def)
  moreover from False have "real_of_int r < 0" by simp
  ultimately have "\<And>ny nx. \<not> euclid y x ny nx \<le> of_int r"
    by (smt (verit))
  with False show ?thesis
    by (simp add: near_land_alt land_within_def)
qed

lemma length_set_cell: "length (set_cell t y x v) = length t"
  by (simp add: set_cell_def)

lemma length_set_cell_row: "length (set_cell t y x v ! i) = length (t ! i)"
  by (cases "y < length t") (simp_all add: set_cell_def nth_list_update list_update_beyond)

lemma set_cell_nth:
  "y < length t \<Longrightarrow> x < length (t ! y) \<Longrightarrow>
     set_cell t y x v ! y' ! x' = (if y' = y \<and> x' = x then v else t ! y' ! x')"
  by (simp add: set_cell_def nth_list_update)

lemma length_visit_cell: "length (visit_cell m h w r y x t) = length t"
  by (simp add: visit_cell_def Let_def length_set_cell)

lemma length_visit_cell_row: "length (visit_cell m h w r y x t ! i) = length (t ! i)"
  by (simp add: visit_cell_def Let_def length_set_cell_row)

lemma visit_cell_nth:
  "y < length t \<Longrightarrow> x < length (t ! y) \<Longrightarrow>
     visit_cell m h w r y x t ! y' ! x' =
       (if y' = y \<and> x' = x then promoted m h w r y x (t ! y ! x) else t ! y' ! x')"
  by (simp add: visit_cell_def Let_def set_cell_nth promoted_def)

lemma length_fold_row:
  "length (fold (\<lambda>x t. visit_cell m h w r y x t) xs t) = length t"
  by (induction xs arbitrary: t) (simp_all add: length_visit_cell)

lemma length_fold_row_nth:
  "length (fold (\<lambda>x t. visit_cell m h w r y x t) xs t ! i) = length (t ! i)"
  by (induction xs arbitrary: t) (simp_all add: length_visit_cell_row)

lemma fold_row_nth:
  assumes "y < length t" "\<forall>x \<in> set xs. x < length (t ! y)" "distinct xs"
  shows "fold (\<lambda>x t. visit_cell m h w r y x t) xs t ! y' ! x' =
     (if y' = y \<and> x' \<in> set xs then promoted m h w r y x' (t ! y ! x') else t ! y' ! x')"
  using assms
proof (induction xs arbitrary: t)
  case Nil
  then show ?case by simp
next
  case (Cons a xs)
  let ?t1 = "visit_cell m h w r y a t"
  have a: "a < length (t ! y)" "a \<notin> set xs" using Cons.prems by simp_all
  have y1: "y < length ?t1" using Cons.prems(1) by (simp add: length_visit_cell)
  have x1: "\<forall>x \<in> set xs. x < length (?t1 ! y)"
    using Cons.prems(2) by (simp add: length_visit_cell_row)
  have d1: "distinct xs" using Cons.prems(3) by simp
  have step: "\<And>i j. ?t1 ! i ! j = (if i = y \<and> j = a then promoted m h w r y a (t ! y ! a) else t ! i ! j)"
    using visit_cell_nth [OF Cons.prems(1) a(1)] by simp
  have "fold (\<lambda>x t. visit_cell m h w r y x t) (a # xs) t ! y' ! x' =
        fold (\<lambda>x t. visit_cell m h w r y x t) xs ?t1 ! y' ! x'"
    by simp
  also have "\<dots> = (if y' = y \<and> x' \<in> set xs then promoted m h w r y x' (?t1 ! y ! x') else ?t1 ! y' ! x')"
    by (rule Cons.IH [OF y1 x1 d1])
  also have "\<dots> = (if y' = y \<and> x' \<in> set (a # xs) then promoted m h w r y x' (t ! y ! x') else t ! y' ! x')"
    using a(2) by (auto simp: step)
  finally show ?case .
qed

lemma length_fold_grid:
  "length (fold (\<lambda>y t. fold (\<lambda>x t. visit_cell m h w r y x t) xs t) ys t) = length t"
  by (induction ys arbitrary: t) (simp_all add: length_fold_row)

lemma length_fold_grid_nth:
  "length (fold (\<lambda>y t. fold (\<lambda>x t. visit_cell m h w r y x t) xs t) ys t ! i) = length (t ! i)"
  by (induction ys arbitrary: t) (simp_all add: length_fold_row_nth)

lemma fold_grid_nth:
  assumes "\<forall>y \<in> set ys. y < length t" "\<forall>i < length t. length (t ! i) = w'" "distinct ys"
  shows "fold (\<lambda>y t. fold (\<lambda>x t. visit_cell m h w r y x t) [0..<w'] t) ys t ! y' ! x' =
     (if y' \<in> set ys \<and> x' < w' then promoted m h w r y' x' (t ! y' ! x') else t ! y' ! x')"
  using assms
proof (induction ys arbitrary: t)
  case Nil
  then show ?case by simp
next
  case (Cons a ys)
  let ?t1 = "fold (\<lambda>x t. visit_cell m h w r a x t) [0..<w'] t"
  have a: "a < length t" "a \<notin> set ys" using Cons.prems by simp_all
  have ra: "\<forall>x \<in> set [0..<w']. x < length (t ! a)"
    using Cons.prems(2) a(1) by simp
  have y1: "\<forall>y \<in> set ys. y < length ?t1" using Cons.prems(1) by (simp add: length_fold_row)
  have s1: "\<forall>i < length ?t1. length (?t1 ! i) = w'"
    using Cons.prems(2) by (simp add: length_fold_row length_fold_row_nth)
  have d1: "distinct ys" using Cons.prems(3) by simp
  have step: "\<And>i j. ?t1 ! i ! j = (if i = a \<and> j < w' then promoted m h w r a j (t ! a ! j) else t ! i ! j)"
    using fold_row_nth [OF a(1) ra, of m h w r] by simp
  have "fold (\<lambda>y t. fold (\<lambda>x t. visit_cell m h w r y x t) [0..<w'] t) (a # ys) t ! y' ! x' =
        fold (\<lambda>y t. fold (\<lambda>x t. visit_cell m h w r y x t) [0..<w'] t) ys ?t1 ! y' ! x'"
    by simp
  also have "\<dots> = (if y' \<in> set ys \<and> x' < w' then promoted m h w r y' x' (?t1 ! y' ! x') else ?t1 ! y' ! x')"
    by (rule Cons.IH [OF y1 s1 d1])
  also have "\<dots> = (if y' \<in> set (a # ys) \<and> x' < w' then promoted m h w r y' x' (t ! y' ! x') else t ! y' ! x')"
    using a(2) by (auto simp: step)
  finally show ?case .
qed

lemma rect_row: "rect a \<Longrightarrow> y < height a \<Longrightarrow> length (a ! y) = width a"
  by (simp add: rect_def height_def list_all_length)

lemma length_masked_assign:
  "length a = length msk \<Longrightarrow> length (masked_assign a msk v) = length a"
  by (simp add: masked_assign_def)

lemma masked_assign_row:
  "length a = length msk \<Longrightarrow> y < length a \<Longrightarrow>
     masked_assign a msk v ! y = map2 (\<lambda>c b. if b then v else c) (a ! y) (msk ! y)"
  by (simp add: masked_assign_def)

lemma masked_assign_nth:
  "length a = length msk \<Longrightarrow> y < length a \<Longrightarrow> length (a ! y) = length (msk ! y) \<Longrightarrow>
     x < length (a ! y) \<Longrightarrow>
     masked_assign a msk v ! y ! x = (if msk ! y ! x then v else a ! y ! x)"
  by (simp add: masked_assign_row)

lemma length_masked_assign_row:
  "length a = length msk \<Longrightarrow> y < length a \<Longrightarrow> length (a ! y) = length (msk ! y) \<Longrightarrow>
     length (masked_assign a msk v ! y) = length (a ! y)"
  by (simp add: masked_assign_row)

lemma init_terrain:
  assumes "rect m"
  defines "t0 \<equiv> masked_assign (np_zeros (height m) (width m) (0::8 word)) m 2"
  shows "length t0 = height m"
    and "\<forall>i < length t0. length (t0 ! i) = width m"
    and "y < height m \<Longrightarrow> x < width m \<Longrightarrow> t0 ! y ! x = (if m ! y ! x then 2 else 0)"
proof -
  have l: "length (np_zeros (height m) (width m) (0::8 word)) = length m"
    by (simp add: np_zeros_def height_def)
  have r: "\<And>i. i < height m \<Longrightarrow>
      length (np_zeros (height m) (width m) (0::8 word) ! i) = length (m ! i)"
    using rect_row [OF assms(1)] by (simp add: np_zeros_def)
  show a: "length t0 = height m"
    unfolding t0_def using l by (simp add: length_masked_assign height_def)
  show "\<forall>i < length t0. length (t0 ! i) = width m"
  proof (intro allI impI)
    fix i assume "i < length t0"
    with a have i: "i < height m" by simp
    then have "length (t0 ! i) = length (np_zeros (height m) (width m) (0::8 word) ! i)"
      unfolding t0_def using l r [OF i] by (simp add: length_masked_assign_row height_def)
    with i show "length (t0 ! i) = width m" by (simp add: np_zeros_def)
  qed
  show "t0 ! y ! x = (if m ! y ! x then 2 else 0)" if "y < height m" "x < width m"
  proof -
    have "t0 ! y ! x = (if m ! y ! x then 2 else np_zeros (height m) (width m) (0::8 word) ! y ! x)"
      unfolding t0_def using l r [OF that(1)] that rect_row [OF assms(1) that(1)]
      by (intro masked_assign_nth) (simp_all add: height_def)
    with that show ?thesis by (simp add: np_zeros_def)
  qed
qed

lemma generate_shallow_water_shape:
  assumes "rect m"
  shows "length (generate_shallow_water m r) = height m"
    and "y < height m \<Longrightarrow> length (generate_shallow_water m r ! y) = width m"
  using init_terrain(1,2) [OF assms]
  by (simp_all add: generate_shallow_water_def Let_def length_fold_grid length_fold_grid_nth)

lemma generate_shallow_water_cell:
  assumes "rect m" "y < height m" "x < width m"
  shows "generate_shallow_water m r ! y ! x =
     (if m ! y ! x then LAND else if window_hit m r y x then SHALLOW else WATER)"
proof -
  let ?t0 = "masked_assign (np_zeros (height m) (width m) (0::8 word)) m 2"
  have ys: "\<forall>y \<in> set [0..<height m]. y < length ?t0"
    using init_terrain(1) [OF assms(1)] by simp
  have "generate_shallow_water m r ! y ! x =
      promoted m (height m) (width m) r y x (?t0 ! y ! x)"
    unfolding generate_shallow_water_def Let_def
    using fold_grid_nth [OF ys init_terrain(2) [OF assms(1)], of m "height m" "width m" r y x] assms(2,3)
    by simp
  also have "\<dots> = promoted m (height m) (width m) r y x (if m ! y ! x then 2 else 0)"
    using init_terrain(3) [OF assms] by simp
  also have "\<dots> = (if m ! y ! x then LAND else if window_hit m r y x then SHALLOW else WATER)"
    using scan_window_hit [of m r y x]
    by (simp add: promoted_def LAND_def SHALLOW_def WATER_def)
  finally show ?thesis .
qed

lemma generate_shallow_water_nth:
  assumes "rect m" "y < height m" "x < width m" "r < 2 ^ 26"
  shows "generate_shallow_water m r ! y ! x = classify m r y x"
  unfolding generate_shallow_water_cell [OF assms(1,2,3)]
    window_hit_iff_near_land [OF assms(2,3,4)] classify_def by simp

lemma generate_shallow_water_grid:
  assumes "rect m" "r < 2 ^ 26"
  shows "generate_shallow_water m r =
     map (\<lambda>y. map (\<lambda>x. classify m r y x) [0..<width m]) [0..<height m]"
proof (rule nth_equalityI)
  show "length (generate_shallow_water m r) =
      length (map (\<lambda>y. map (\<lambda>x. classify m r y x) [0..<width m]) [0..<height m])"
    using generate_shallow_water_shape(1) [OF assms(1)] by simp
next
  fix y assume "y < length (generate_shallow_water m r)"
  then have y: "y < height m" using generate_shallow_water_shape(1) [OF assms(1)] by simp
  have "generate_shallow_water m r ! y = map (\<lambda>x. classify m r y x) [0..<width m]"
  proof (rule nth_equalityI)
    show "length (generate_shallow_water m r ! y) = length (map (\<lambda>x. classify m r y x) [0..<width m])"
      using generate_shallow_water_shape(2) [OF assms(1) y] by simp
  next
    fix x assume "x < length (generate_shallow_water m r ! y)"
    then have x: "x < width m" using generate_shallow_water_shape(2) [OF assms(1) y] by simp
    then show "generate_shallow_water m r ! y ! x = map (\<lambda>x. classify m r y x) [0..<width m] ! x"
      using generate_shallow_water_nth [OF assms(1) y x assms(2)] by simp
  qed
  with y show "generate_shallow_water m r ! y =
      map (\<lambda>y. map (\<lambda>x. classify m r y x) [0..<width m]) [0..<height m] ! y"
    by simp
qed

lemma mask5_shape: "rect mask5" "height mask5 = 5" "width mask5 = 5"
  by (simp_all add: rect_def mask5_def width_def height_def)

lemma generate_shallow_water_mask5: "generate_shallow_water mask5 2 =
    [[WATER, WATER, SHALLOW, WATER, WATER],
     [WATER, SHALLOW, SHALLOW, SHALLOW, WATER],
     [SHALLOW, SHALLOW, LAND, SHALLOW, SHALLOW],
     [WATER, SHALLOW, SHALLOW, SHALLOW, WATER],
     [WATER, WATER, SHALLOW, WATER, WATER]]"
proof -
  have "map (\<lambda>y. map (\<lambda>x. classify mask5 2 y x) [0..<width mask5]) [0..<height mask5] =
    [[WATER, WATER, SHALLOW, WATER, WATER],
     [WATER, SHALLOW, SHALLOW, SHALLOW, WATER],
     [SHALLOW, SHALLOW, LAND, SHALLOW, SHALLOW],
     [WATER, SHALLOW, SHALLOW, SHALLOW, WATER],
     [WATER, WATER, SHALLOW, WATER, WATER]]"
    by code_simp
  then show ?thesis using generate_shallow_water_grid [OF mask5_shape(1), of 2] by simp
qed

lemma terrain_codes_distinct:
  "WATER \<noteq> SHALLOW" "WATER \<noteq> LAND" "SHALLOW \<noteq> LAND"
  by (simp_all add: WATER_def SHALLOW_def LAND_def)

lemma classify_cases:
  "classify m r y x = LAND \<longleftrightarrow> m ! y ! x"
  "classify m r y x = SHALLOW \<longleftrightarrow> \<not> m ! y ! x \<and> near_land m r y x"
  "classify m r y x = WATER \<longleftrightarrow> \<not> m ! y ! x \<and> \<not> near_land m r y x"
  by (simp_all add: classify_def WATER_def SHALLOW_def LAND_def)

lemma sqdist_le_zero: "sqdist y x ny nx \<le> 0 \<longleftrightarrow> ny = y \<and> nx = x"
proof -
  have "sqdist y x ny nx \<le> 0 \<longleftrightarrow> sqdist y x ny nx = 0"
    using sqdist_nonneg [of y x ny nx] by linarith
  also have "\<dots> \<longleftrightarrow> int nx - int x = 0 \<and> int ny - int y = 0"
    unfolding sqdist_def by (rule sum_squares_eq_zero_iff)
  finally show ?thesis by auto
qed

lemma near_land_zero: "\<not> m ! y ! x \<Longrightarrow> \<not> near_land m 0 y x"
  unfolding near_land_alt by (auto simp: sqdist_le_zero)

lemma near_land_negative: "r < 0 \<Longrightarrow> \<not> near_land m r y x"
  by (simp add: near_land_def)

lemma classify_nonpositive:
  "r \<le> 0 \<Longrightarrow> classify m r y x = (if m ! y ! x then LAND else WATER)"
  using near_land_zero [of m y x] near_land_negative [of r m y x]
  by (cases "r = 0") (auto simp: classify_def)

text \<open>
  C1, amended: for every radius below \<open>2^26\<close>, in the grid returned by
  \<open>generate_shallow_water\<close> a SHALLOW cell has a land cell of the mask at
  Euclidean distance at most the radius, a WATER cell has none, and a water
  cell with a land cell at distance exactly the radius is SHALLOW (the boundary
  is inclusive), although only the square window of offsets is scanned.
\<close>

theorem C1_shallow_iff_land_within_radius:
  assumes "rect m" and "y < height m" and "x < width m" and "r < 2 ^ 26"
  shows "(generate_shallow_water m r ! y ! x = SHALLOW \<longrightarrow> land_within m (of_int r) y x) \<and>
         (generate_shallow_water m r ! y ! x = WATER \<longrightarrow> \<not> land_within m (of_int r) y x) \<and>
         (\<not> m ! y ! x \<longrightarrow>
            (\<exists>ny < height m. \<exists>nx < width m. m ! ny ! nx \<and> euclid y x ny nx = of_int r) \<longrightarrow>
            generate_shallow_water m r ! y ! x = SHALLOW)"
proof -
  have g: "generate_shallow_water m r ! y ! x = classify m r y x"
    by (rule generate_shallow_water_nth [OF assms])
  have "(\<exists>ny < height m. \<exists>nx < width m. m ! ny ! nx \<and> euclid y x ny nx = of_int r) \<longrightarrow>
      land_within m (of_int r) y x"
    unfolding land_within_def by force
  then show ?thesis
    unfolding g classify_cases near_land_iff_land_within by blast
qed



lemma classify_grid_nonpositive:
  assumes "rect m" "r \<le> 0"
  shows "map (\<lambda>y. map (\<lambda>x. classify m r y x) [0..<width m]) [0..<height m] =
     map (map (\<lambda>b. if b then LAND else WATER)) m"
proof (rule nth_equalityI)
  show "length (map (\<lambda>y. map (\<lambda>x. classify m r y x) [0..<width m]) [0..<height m]) =
      length (map (map (\<lambda>b. if b then LAND else WATER)) m)"
    by (simp add: height_def)
next
  fix y assume "y < length (map (\<lambda>y. map (\<lambda>x. classify m r y x) [0..<width m]) [0..<height m])"
  then have y: "y < height m" by simp
  then have l: "length (m ! y) = width m" using rect_row [OF assms(1)] by simp
  have "map (\<lambda>x. classify m r y x) [0..<width m] = map (\<lambda>b. if b then LAND else WATER) (m ! y)"
    by (rule nth_equalityI) (simp_all add: l classify_nonpositive [OF assms(2)])
  with y show "map (\<lambda>y. map (\<lambda>x. classify m r y x) [0..<width m]) [0..<height m] ! y =
      map (map (\<lambda>b. if b then LAND else WATER)) m ! y"
    by (simp add: height_def)
qed

lemma no_shallow_in_binary_grid:
  "SHALLOW \<notin> set (concat (map (map (\<lambda>b. if b then LAND else WATER)) m))"
  by (auto simp: WATER_def SHALLOW_def LAND_def)

text \<open>
  C4: with radius 0 the returned grid has no SHALLOW cell: every True cell of
  the mask is LAND and every False cell is WATER.
\<close>

theorem C4_radius_zero_no_shallow:
  assumes "rect m"
  shows "generate_shallow_water m 0 = map (map (\<lambda>b. if b then LAND else WATER)) m \<and>
         SHALLOW \<notin> set (concat (generate_shallow_water m 0))"
proof -
  have "generate_shallow_water m 0 = map (map (\<lambda>b. if b then LAND else WATER)) m"
    using generate_shallow_water_grid [OF assms, of 0] classify_grid_nonpositive [OF assms, of 0]
    by simp
  then show ?thesis using no_shallow_in_binary_grid [of m] by simp
qed

text \<open>
  C9: with a negative radius the function returns the same grid as with
  radius 0, and no cell is SHALLOW (the offset ranges are empty).
\<close>

theorem C9_negative_radius_like_zero:
  assumes "rect m" and "r < 0"
  shows "generate_shallow_water m r = generate_shallow_water m 0 \<and>
         SHALLOW \<notin> set (concat (generate_shallow_water m r))"
proof -
  have "r < 2 ^ 26" using assms(2) by simp
  then have a: "generate_shallow_water m r = map (map (\<lambda>b. if b then LAND else WATER)) m"
    using generate_shallow_water_grid [OF assms(1), of r] classify_grid_nonpositive [OF assms(1), of r]
      assms(2) by simp
  have b: "generate_shallow_water m 0 = map (map (\<lambda>b. if b then LAND else WATER)) m"
    using generate_shallow_water_grid [OF assms(1), of 0] classify_grid_nonpositive [OF assms(1), of 0]
    by simp
  show ?thesis using a b no_shallow_in_binary_grid [of m] by simp
qed

lemma far_mask_shape: "rect far_mask" "height far_mask = 2" "width far_mask = 67108865"
  by (simp_all add: far_mask_def rect_def width_def height_def)

lemma far_mask_land:
  assumes "ny < 2" "nx < 67108865" "far_mask ! ny ! nx"
  shows "ny = 0 \<and> nx = 67108864"
proof (cases "ny = 0")
  case True
  with assms(3) have "(replicate 67108864 False @ [True]) ! nx" by (simp add: far_mask_def)
  then have "\<not> nx < 67108864" by (auto simp: nth_append)
  with assms(2) True show ?thesis by simp
next
  case False
  with assms(1) have "ny = 1" by simp
  with assms(2,3) show ?thesis by (simp add: far_mask_def)
qed

lemma far_mask_cells: "\<not> far_mask ! 1 ! 0" "far_mask ! 0 ! 67108864"
  by (simp_all add: far_mask_def nth_append)

lemma far_mask_window_hit: "window_hit far_mask 67108864 1 0"
proof -
  have h: "land_at_offset far_mask (height far_mask) (width far_mask) 1 0 (- 1) 67108864"
    using far_mask_cells(2) by (simp add: land_at_offset_def far_mask_shape)
  have "np_sqrt 4503599627370497 = f64_round (sqrt (of_int 4503599627370497))"
    by (rule np_sqrt_small) simp_all
  then have "np_sqrt 4503599627370497 = Finite 67108864"
    using f64_round_sqrt_tie by simp
  then have f: "fle (np_sqrt (67108864 * 67108864 + (- 1) * (- 1))) (Finite (of_int 67108864))"
    by simp
  have "- 67108864 \<le> (- 1 :: int) \<and> (- 1 :: int) \<le> 67108864 \<and>
      - 67108864 \<le> (67108864 :: int) \<and> (67108864 :: int) \<le> 67108864"
    by simp
  with h f show ?thesis unfolding window_hit_alt by blast
qed

lemma far_mask_no_land_within: "\<not> land_within far_mask 67108864 1 0"
proof
  assume "land_within far_mask 67108864 1 0"
  then obtain ny nx where b: "ny < 2" "nx < 67108865" and l: "far_mask ! ny ! nx"
    and e: "euclid 1 0 ny nx \<le> 67108864"
    unfolding land_within_def far_mask_shape by blast
  from far_mask_land [OF b l] have n: "ny = 0" "nx = 67108864" by simp_all
  have "(67108864::real) < sqrt 4503599627370497"
    by (rule real_less_rsqrt) simp
  moreover have "euclid 1 0 0 67108864 = sqrt 4503599627370497"
    by (simp add: euclid_def)
  ultimately show False using e n by simp
qed

text \<open>
  C1, as stated, fails at the radius \<open>2^26\<close>: in the mask of 2 rows and
  \<open>2^26 + 1\<close> columns whose only land cell is \<open>(0, 2^26)\<close>, the cell \<open>(1, 0)\<close> is
  classified SHALLOW, although the land cell is at distance \<open>sqrt (2^52 + 1)\<close>,
  more than the radius: in \<^verbatim>\<open>float64\<close> that root is \<open>2^26\<close>.
\<close>

theorem C1_counterexample:
  "generate_shallow_water far_mask 67108864 ! 1 ! 0 = SHALLOW \<and>
   \<not> land_within far_mask 67108864 1 0"
proof -
  have "generate_shallow_water far_mask 67108864 ! 1 ! 0 = SHALLOW"
    using generate_shallow_water_cell [of far_mask 1 0 67108864]
      far_mask_cells(1) far_mask_window_hit
    by (simp add: far_mask_shape)
  then show ?thesis using far_mask_no_land_within by simp
qed

text \<open>The theorem of C1 at a concrete input.\<close>

theorem C1_witness:
  "rect mask5 \<and> 0 < height mask5 \<and> 2 < width mask5 \<and> \<not> mask5 ! 0 ! 2 \<and>
   generate_shallow_water mask5 2 ! 0 ! 2 = SHALLOW \<and> land_within mask5 2 0 2"
proof -
  have h: "rect mask5" "0 < height mask5" "2 < width mask5"
    by (simp_all add: mask5_shape)
  have nl: "\<not> mask5 ! 0 ! 2"
    by (simp add: mask5_def)
  have "mask5 ! 2 ! 2" "euclid 0 2 2 2 = of_int 2"
    by (simp_all add: mask5_def euclid_def)
  then have "2 < height mask5 \<and> 2 < width mask5 \<and> mask5 ! 2 ! 2 \<and> euclid 0 2 2 2 = of_int 2"
    by (simp add: mask5_shape)
  then have ex: "\<exists>ny < height mask5. \<exists>nx < width mask5. mask5 ! ny ! nx \<and> euclid 0 2 ny nx = of_int 2"
    by blast
  have b: "(2::int) < 2 ^ 26" by simp
  from C1_shallow_iff_land_within_radius [OF h b] nl ex h show ?thesis
    by simp
qed




text \<open>The theorem of C4 at a concrete input.\<close>

theorem C4_witness:
  "rect mask5 \<and>
   generate_shallow_water mask5 0 =
     [[WATER, WATER, WATER, WATER, WATER],
      [WATER, WATER, WATER, WATER, WATER],
      [WATER, WATER, LAND, WATER, WATER],
      [WATER, WATER, WATER, WATER, WATER],
      [WATER, WATER, WATER, WATER, WATER]] \<and>
   SHALLOW \<notin> set (concat (generate_shallow_water mask5 0))"
proof -
  have h: "rect mask5" by (simp add: mask5_shape)
  have "map (map (\<lambda>b. if b then LAND else WATER)) mask5 =
     [[WATER, WATER, WATER, WATER, WATER],
      [WATER, WATER, WATER, WATER, WATER],
      [WATER, WATER, LAND, WATER, WATER],
      [WATER, WATER, WATER, WATER, WATER],
      [WATER, WATER, WATER, WATER, WATER]]"
    by (simp add: mask5_def)
  with C4_radius_zero_no_shallow [OF h] h show ?thesis
    by (simp add: WATER_def SHALLOW_def LAND_def)
qed

text \<open>The theorem of C9 at a concrete input.\<close>

theorem C9_witness:
  "rect mask5 \<and> (- 1 :: int) < 0 \<and>
   generate_shallow_water mask5 (- 1) = generate_shallow_water mask5 0 \<and>
   SHALLOW \<notin> set (concat (generate_shallow_water mask5 (- 1)))"
proof -
  have h: "rect mask5" by (simp add: mask5_shape)
  have r: "(- 1 :: int) < 0" by simp
  from C9_negative_radius_like_zero [OF h r] h show ?thesis
    by simp
qed

lemma count_cells_mask5:
  "count_cells (generate_shallow_water mask5 2) LAND = 1"
  "count_cells (generate_shallow_water mask5 2) SHALLOW = 12"
  "count_cells (generate_shallow_water mask5 2) WATER = 12"
  by (simp_all add: generate_shallow_water_mask5 count_cells_def eq_mask_def WATER_def SHALLOW_def LAND_def)

text \<open>
  C5, as stated, fails: for the 5 by 5 mask with the single land cell
  \<open>(2, 2)\<close> and radius 2 the grid does not have 20 SHALLOW and 4 WATER cells.
\<close>

theorem C5_counterexample:
  "\<not> (count_cells (generate_shallow_water mask5 2) LAND = 1 \<and>
      count_cells (generate_shallow_water mask5 2) SHALLOW = 20 \<and>
      count_cells (generate_shallow_water mask5 2) WATER = 4)"
  by (simp add: count_cells_mask5)

text \<open>
  C5, amended: for the 5 by 5 mask with the single land cell \<open>(2, 2)\<close> and
  radius 2 the grid has 1 LAND cell, 12 SHALLOW cells (the cells at squared
  distance 1, 2 and 4 from the centre) and 12 WATER cells: the four corners
  (distance \<open>sqrt 8\<close>) and the eight cells at distance \<open>sqrt 5\<close>.
\<close>

theorem C5_single_land_cell_radius_two:
  "generate_shallow_water mask5 2 =
     [[WATER, WATER, SHALLOW, WATER, WATER],
      [WATER, SHALLOW, SHALLOW, SHALLOW, WATER],
      [SHALLOW, SHALLOW, LAND, SHALLOW, SHALLOW],
      [WATER, SHALLOW, SHALLOW, SHALLOW, WATER],
      [WATER, WATER, SHALLOW, WATER, WATER]] \<and>
   count_cells (generate_shallow_water mask5 2) LAND = 1 \<and>
   count_cells (generate_shallow_water mask5 2) SHALLOW = 12 \<and>
   count_cells (generate_shallow_water mask5 2) WATER = 12"
  using generate_shallow_water_mask5 count_cells_mask5 by simp

section \<open>Properties of the encoder\<close>

lemma length_eq_mask: "length (eq_mask t c) = length t"
  by (simp add: eq_mask_def)

lemma length_eq_mask_row: "y < length t \<Longrightarrow> length (eq_mask t c ! y) = length (t ! y)"
  by (simp add: eq_mask_def)

lemma eq_mask_nth: "y < length t \<Longrightarrow> x < length (t ! y) \<Longrightarrow> eq_mask t c ! y ! x = (t ! y ! x = c)"
  by (simp add: eq_mask_def)

lemma recolour_shape:
  assumes "length a = length t" "\<forall>i < length t. length (a ! i) = length (t ! i)"
  shows "length (masked_assign a (eq_mask t c) v) = length t"
    and "\<forall>i < length t. length (masked_assign a (eq_mask t c) v ! i) = length (t ! i)"
  using assms by (simp_all add: length_masked_assign length_masked_assign_row length_eq_mask length_eq_mask_row)

lemma recolour_nth:
  assumes "length a = length t" "\<forall>i < length t. length (a ! i) = length (t ! i)"
    and "y < length t" "x < length (t ! y)"
  shows "masked_assign a (eq_mask t c) v ! y ! x = (if t ! y ! x = c then v else a ! y ! x)"
proof -
  have "masked_assign a (eq_mask t c) v ! y ! x = (if eq_mask t c ! y ! x then v else a ! y ! x)"
    using assms by (intro masked_assign_nth) (simp_all add: length_eq_mask length_eq_mask_row)
  then show ?thesis using assms(3,4) by (simp add: eq_mask_nth)
qed

lemma terrain_to_image_shape:
  assumes "rect t"
  shows "length (terrain_to_image t) = length t"
    and "\<forall>i < length t. length (terrain_to_image t ! i) = length (t ! i)"
proof -
  let ?z = "np_zeros (height t) (width t) ((0, 0, 0) :: rgb)"
  have z: "length ?z = length t" "\<forall>i < length t. length (?z ! i) = length (t ! i)"
    using rect_row [OF assms] by (simp_all add: np_zeros_def height_def)
  note s1 = recolour_shape [OF z, of 0 "(0, 0, 0)"]
  note s2 = recolour_shape [OF s1, of 1 "(0, 255, 255)"]
  note s3 = recolour_shape [OF s2, of 2 "(255, 255, 255)"]
  show "length (terrain_to_image t) = length t"
    and "\<forall>i < length t. length (terrain_to_image t ! i) = length (t ! i)"
    using s3 by (simp_all add: terrain_to_image_def Let_def)
qed

lemma terrain_to_image_nth:
  assumes "rect t" "y < height t" "x < width t"
  shows "terrain_to_image t ! y ! x = colour_of (t ! y ! x)"
proof -
  let ?z = "np_zeros (height t) (width t) ((0, 0, 0) :: rgb)"
  have y: "y < length t" and x: "x < length (t ! y)"
    using assms rect_row [OF assms(1,2)] by (simp_all add: height_def)
  have z: "length ?z = length t" "\<forall>i < length t. length (?z ! i) = length (t ! i)"
    using rect_row [OF assms(1)] by (simp_all add: np_zeros_def height_def)
  have z0: "?z ! y ! x = (0, 0, 0)"
    using assms(2,3) by (simp add: np_zeros_def)
  note s1 = recolour_shape [OF z, of 0 "(0, 0, 0)"]
  note s2 = recolour_shape [OF s1, of 1 "(0, 255, 255)"]
  note n1 = recolour_nth [OF z y x, of 0 "(0, 0, 0)"]
  note n2 = recolour_nth [OF s1 y x, of 1 "(0, 255, 255)"]
  note n3 = recolour_nth [OF s2 y x, of 2 "(255, 255, 255)"]
  show ?thesis
    unfolding terrain_to_image_def Let_def n3 n2 n1 z0 colour_of_def by simp
qed

lemma terrain_to_image_grid:
  assumes "rect t"
  shows "terrain_to_image t = map (map colour_of) t"
proof (rule nth_equalityI)
  show "length (terrain_to_image t) = length (map (map colour_of) t)"
    using terrain_to_image_shape(1) [OF assms] by simp
next
  fix y assume "y < length (terrain_to_image t)"
  then have y: "y < length t" using terrain_to_image_shape(1) [OF assms] by simp
  then have l: "length (terrain_to_image t ! y) = length (t ! y)"
    using terrain_to_image_shape(2) [OF assms] by simp
  have w: "length (t ! y) = width t" using rect_row [OF assms] y by (simp add: height_def)
  have "terrain_to_image t ! y = map colour_of (t ! y)"
  proof (rule nth_equalityI)
    show "length (terrain_to_image t ! y) = length (map colour_of (t ! y))" using l by simp
  next
    fix x assume "x < length (terrain_to_image t ! y)"
    then have "x < width t" using l w by simp
    then show "terrain_to_image t ! y ! x = map colour_of (t ! y) ! x"
      using terrain_to_image_nth [OF assms, of y x] y w by (simp add: height_def)
  qed
  with y show "terrain_to_image t ! y = map (map colour_of) t ! y" by simp
qed

lemma colour_of_codes:
  "colour_of WATER = (0, 0, 0)" "colour_of SHALLOW = (0, 255, 255)" "colour_of LAND = (255, 255, 255)"
  by (simp_all add: colour_of_def WATER_def SHALLOW_def LAND_def)

lemma colour_of_other: "c \<noteq> 0 \<Longrightarrow> c \<noteq> 1 \<Longrightarrow> c \<noteq> 2 \<Longrightarrow> colour_of c = (0, 0, 0)"
  by (simp add: colour_of_def)

lemma colour_of_range: "colour_of c \<in> {(0, 0, 0), (0, 255, 255), (255, 255, 255)}"
  by (simp add: colour_of_def)

lemma width_map_map: "width (map (map f) t) = width t"
  by (cases t) (simp_all add: width_def)

lemma rect_map_map: "rect t \<Longrightarrow> rect (map (map f) t)"
  by (simp add: rect_def width_map_map list_all_iff)

lemma terrain22_shape: "rect terrain22" "height terrain22 = 2" "width terrain22 = 2"
  by (simp_all add: terrain22_def rect_def width_def height_def)

lemma terrain_odd_shape: "rect terrain_odd" "height terrain_odd = 1" "width terrain_odd = 2"
  by (simp_all add: terrain_odd_def rect_def width_def height_def)

text \<open>
  C7: the image returned by \<open>terrain_to_image\<close> has the height and width of
  the terrain grid; a WATER cell is black \<open>(0,0,0)\<close>, a SHALLOW cell cyan
  \<open>(0,255,255)\<close>, a LAND cell white \<open>(255,255,255)\<close>; the image holds at most
  these three colours; and the grid \<open>[[WATER, SHALLOW], [LAND, WATER]]\<close> encodes
  to \<open>[[(0,0,0), (0,255,255)], [(255,255,255), (0,0,0)]]\<close>.
\<close>

theorem C7_fixed_colour_mapping:
  assumes "rect t"
  shows "height (terrain_to_image t) = height t \<and> width (terrain_to_image t) = width t \<and>
         rect (terrain_to_image t) \<and>
         (\<forall>y < height t. \<forall>x < width t.
            (t ! y ! x = WATER \<longrightarrow> terrain_to_image t ! y ! x = (0, 0, 0)) \<and>
            (t ! y ! x = SHALLOW \<longrightarrow> terrain_to_image t ! y ! x = (0, 255, 255)) \<and>
            (t ! y ! x = LAND \<longrightarrow> terrain_to_image t ! y ! x = (255, 255, 255))) \<and>
         set (concat (terrain_to_image t)) \<subseteq> {(0, 0, 0), (0, 255, 255), (255, 255, 255)} \<and>
         terrain_to_image [[WATER, SHALLOW], [LAND, WATER]] =
           [[(0, 0, 0), (0, 255, 255)], [(255, 255, 255), (0, 0, 0)]]"
proof -
  have g: "terrain_to_image t = map (map colour_of) t"
    by (rule terrain_to_image_grid [OF assms])
  have a: "height (terrain_to_image t) = height t" "width (terrain_to_image t) = width t"
      "rect (terrain_to_image t)"
    unfolding g using assms by (simp_all add: height_def width_map_map rect_map_map)
  have b: "\<forall>y < height t. \<forall>x < width t.
            (t ! y ! x = WATER \<longrightarrow> terrain_to_image t ! y ! x = (0, 0, 0)) \<and>
            (t ! y ! x = SHALLOW \<longrightarrow> terrain_to_image t ! y ! x = (0, 255, 255)) \<and>
            (t ! y ! x = LAND \<longrightarrow> terrain_to_image t ! y ! x = (255, 255, 255))"
    using terrain_to_image_nth [OF assms] colour_of_codes by simp
  have c: "set (concat (terrain_to_image t)) \<subseteq> {(0, 0, 0), (0, 255, 255), (255, 255, 255)}"
  proof
    fix p assume "p \<in> set (concat (terrain_to_image t))"
    then obtain c where "p = colour_of c" unfolding g by auto
    then show "p \<in> {(0, 0, 0), (0, 255, 255), (255, 255, 255)}"
      using colour_of_range [of c] by (simp only:)
  qed
  have "rect [[WATER, SHALLOW], [LAND, WATER]]"
    by (simp add: rect_def width_def)
  then have d: "terrain_to_image [[WATER, SHALLOW], [LAND, WATER]] =
           [[(0, 0, 0), (0, 255, 255)], [(255, 255, 255), (0, 0, 0)]]"
    by (simp add: terrain_to_image_grid colour_of_codes)
  from a b c d show ?thesis by blast
qed

text \<open>The theorem of C7 at a concrete input.\<close>

theorem C7_witness:
  "rect terrain22 \<and> (1::nat) < height terrain22 \<and> (0::nat) < width terrain22 \<and>
   terrain22 ! 1 ! 0 = LAND \<and> terrain_to_image terrain22 ! 1 ! 0 = (255, 255, 255) \<and>
   height (terrain_to_image terrain22) = 2 \<and> width (terrain_to_image terrain22) = 2"
proof -
  have h: "rect terrain22" "(1::nat) < height terrain22" "(0::nat) < width terrain22"
    by (simp_all add: terrain22_shape)
  have l: "terrain22 ! 1 ! 0 = LAND" by (simp add: terrain22_def)
  from C7_fixed_colour_mapping [OF h(1)] h l show ?thesis
    by (simp add: terrain22_shape)
qed

text \<open>
  C10: a cell holding a value other than 0, 1 and 2 is encoded as \<open>(0,0,0)\<close>,
  the colour of WATER: the buffer starts as zeros and only the cells equal to
  0, 1 or 2 are recoloured.
\<close>

theorem C10_other_values_black:
  assumes "rect t" and "y < height t" and "x < width t"
    and "t ! y ! x \<noteq> 0" and "t ! y ! x \<noteq> 1" and "t ! y ! x \<noteq> 2"
  shows "terrain_to_image t ! y ! x = (0, 0, 0)"
  using terrain_to_image_nth [OF assms(1,2,3)] colour_of_other [OF assms(4,5,6)] by simp

text \<open>The theorem of C10 at a concrete input.\<close>

theorem C10_witness:
  "rect terrain_odd \<and> (0::nat) < height terrain_odd \<and> (1::nat) < width terrain_odd \<and>
   terrain_odd ! 0 ! 1 = 255 \<and> terrain_to_image terrain_odd ! 0 ! 1 = (0, 0, 0)"
proof -
  have h: "rect terrain_odd" "(0::nat) < height terrain_odd" "(1::nat) < width terrain_odd"
    by (simp_all add: terrain_odd_shape)
  have v: "terrain_odd ! 0 ! 1 = 255" by (simp add: terrain_odd_def)
  then have n: "terrain_odd ! 0 ! 1 \<noteq> 0" "terrain_odd ! 0 ! 1 \<noteq> 1" "terrain_odd ! 0 ! 1 \<noteq> 2"
    by simp_all
  from C10_other_values_black [OF h n] h v show ?thesis
    by simp
qed

section \<open>Properties of the binarizer\<close>

lemma clean_map_Gray: "clean_map (Gray a) t = Inr (map (map (\<lambda>v. t < v)) a)"
  by (simp add: clean_map_def np_greater_def)

lemma clean_map_Color_error:
  "f64_of_pyint t = Inl e \<Longrightarrow> clean_map (Color a) t = Inl e"
  by (simp add: clean_map_def np_greater_def)

lemma clean_map_Color_ok:
  "f64_of_pyint t = Inr tf \<Longrightarrow>
     clean_map (Color a) t = Inr (map (map (\<lambda>cs. flt tf (np_mean cs))) a)"
  by (simp add: clean_map_def np_greater_def comp_def)

lemma color_pixel_bytes:
  assumes "in_byte_range (Color a)" "row \<in> set a" "cs \<in> set row"
  shows "\<forall>v \<in> set cs. 0 \<le> v \<and> v \<le> 255"
  using assms by (auto simp: in_byte_range_def list_all_iff pixel_values_def)

lemma color_pixel_nonempty:
  assumes "has_channels (Color a)" "row \<in> set a" "cs \<in> set row"
  shows "cs \<noteq> []"
  using assms by (auto simp: has_channels_def list_all_iff)

lemma color_pixel_few:
  assumes "few_channels (Color a)" "row \<in> set a" "cs \<in> set row"
  shows "length cs < 2 ^ 45"
proof -
  have "length cs < 35184372088832"
    using assms by (auto simp: few_channels_def list_all_iff)
  then show ?thesis by simp
qed

lemma clean_map_Color_exact:
  assumes "in_byte_range (Color b)" "has_channels (Color b)" "few_channels (Color b)"
    and "f64_of_pyint t \<noteq> Inl OverflowError"
  shows "clean_map (Color b) t =
     Inr (map (map (\<lambda>cs. real_of_int t < real_of_int (sum_list cs) / real (length cs))) b)"
proof -
  obtain tf where tf: "f64_of_pyint t = Inr (Finite tf)" "f64_round (of_int t) = Finite tf"
  proof (cases rule: f64_of_pyint_cases [of t])
    case 1
    with assms(4) show ?thesis by simp
  next
    case (2 tf)
    then show ?thesis using that by blast
  qed
  have "map (map (\<lambda>cs. flt (Finite tf) (np_mean cs))) b =
      map (map (\<lambda>cs. real_of_int t < real_of_int (sum_list cs) / real (length cs))) b"
  proof (intro map_cong refl)
    fix row cs assume m: "row \<in> set b" "cs \<in> set row"
    show "flt (Finite tf) (np_mean cs) =
        (real_of_int t < real_of_int (sum_list cs) / real (length cs))"
      using flt_threshold_mean [OF color_pixel_bytes [OF assms(1) m]
          color_pixel_nonempty [OF assms(2) m] color_pixel_few [OF assms(3) m] tf(2)]
      by simp
  qed
  then show ?thesis using clean_map_Color_ok [OF tf(1)] by simp
qed

text \<open>
  C6, as stated, fails: the one-pixel array of three axes with the value
  \<open>2^53 + 1\<close> and the threshold \<open>2^53\<close> gives water, although the brightness
  is strictly greater than the threshold (the value is rounded to \<open>2^53\<close> when
  the mean is taken).
\<close>

theorem C6_counterexample:
  "clean_map (Color [[[9007199254740993]]]) 9007199254740992 = Inr [[False]] \<and>
   real_of_int 9007199254740992 <
     real_of_int (sum_list [9007199254740993]) / real (length [9007199254740993 :: int])"
proof -
  have t: "f64_of_pyint 9007199254740992 = Inr (Finite 9007199254740992)"
    using f64_round_2_53 by (simp add: f64_of_pyint_def)
  have v: "f64_of_int 9007199254740993 = Finite 9007199254740992"
    using f64_round_2_53_plus_1 by (simp add: f64_of_int_def)
  have c: "f64_of_int 1 = Finite 1"
    using f64_of_int_exact [of 1] by simp
  have "np_mean [9007199254740993] = Finite 9007199254740992"
    by (simp add: np_mean_def v c f64_round_2_53)
  then show ?thesis
    using clean_map_Color_ok [OF t, of "[[[9007199254740993]]]"] by simp
qed

text \<open>
  C6, amended: \<open>clean_map\<close> marks a cell as land if and only if its brightness
  is strictly greater than the threshold, for every single-channel array of
  integers and every integer threshold, and for every multi-channel array
  with values in \<open>[0, 255]\<close> and at least one and fewer than \<open>2^45\<close> channels
  per pixel and every integer threshold that converts to \<^verbatim>\<open>float64\<close> without
  overflow (every threshold of magnitude below \<open>2^53\<close> does). The brightness
  of a single-channel pixel is its value, that of a multi-channel pixel the
  unweighted mean of its channels. A grey pixel 200 with threshold 128 is
  land, a grey pixel 50 is water, and a pixel equal to the threshold is water.
\<close>

theorem C6_land_iff_brighter_than_threshold:
  "clean_map (Gray a) t = Inr (map (map (\<lambda>v. t < v)) a) \<and>
   (in_byte_range (Color b) \<and> has_channels (Color b) \<and> few_channels (Color b) \<and>
    f64_of_pyint t \<noteq> Inl OverflowError \<longrightarrow>
      clean_map (Color b) t =
        Inr (map (map (\<lambda>cs. real_of_int t < real_of_int (sum_list cs) / real (length cs))) b)) \<and>
   (\<bar>t\<bar> < 2 ^ 53 \<longrightarrow> f64_of_pyint t \<noteq> Inl OverflowError) \<and>
   clean_map (Gray [[200]]) 128 = Inr [[True]] \<and>
   clean_map (Gray [[50]]) 128 = Inr [[False]] \<and>
   clean_map (Gray [[128]]) 128 = Inr [[False]]"
proof -
  have "f64_of_pyint t \<noteq> Inl OverflowError" if "\<bar>t\<bar> < 2 ^ 53"
    using f64_of_pyint_small [OF that] by simp
  then show ?thesis
    using clean_map_Color_exact [of b t] by (simp add: clean_map_Gray)
qed

text \<open>The theorem of C6 at a concrete input.\<close>

theorem C6_witness:
  "in_byte_range (Color [[[200, 100, 0]]]) \<and> has_channels (Color [[[200, 100, 0]]]) \<and>
   few_channels (Color [[[200, 100, 0]]]) \<and>
   clean_map (Color [[[200, 100, 0]]]) 99 = Inr [[True]] \<and>
   clean_map (Color [[[200, 100, 0]]]) 100 = Inr [[False]]"
proof -
  have h: "in_byte_range (Color [[[200, 100, 0]]])" "has_channels (Color [[[200, 100, 0]]])"
      "few_channels (Color [[[200, 100, 0]]])"
    by (simp_all add: in_byte_range_def pixel_values_def has_channels_def few_channels_def)
  have t: "\<bar>99 :: int\<bar> < 2 ^ 53" "\<bar>100 :: int\<bar> < 2 ^ 53" by simp_all
  from C6_land_iff_brighter_than_threshold [of "[]" 99 "[[[200, 100, 0]]]"]
       C6_land_iff_brighter_than_threshold [of "[]" 100 "[[[200, 100, 0]]]"] h t
  show ?thesis by simp
qed

lemma const_mask_Color: "const_mask (Color a) b = map (map (\<lambda>_. b)) a"
  by (simp add: const_mask_def)

lemma clean_map_Color_negative:
  assumes "in_byte_range (Color a)" "has_channels (Color a)" "few_channels (Color a)"
    and "f64_of_pyint t \<noteq> Inl OverflowError" "t < 0"
  shows "clean_map (Color a) t = Inr (const_mask (Color a) True)"
proof -
  have "map (map (\<lambda>cs. real_of_int t < real_of_int (sum_list cs) / real (length cs))) a =
      map (map (\<lambda>_. True)) a"
  proof (intro map_cong refl)
    fix row cs assume m: "row \<in> set a" "cs \<in> set row"
    have "0 \<le> real_of_int (sum_list cs) / real (length cs)"
      by (rule mean_bounds(1) [OF color_pixel_bytes [OF assms(1) m]
            color_pixel_nonempty [OF assms(2) m]])
    moreover have "real_of_int t < 0" using assms(5) by simp
    ultimately show "(real_of_int t < real_of_int (sum_list cs) / real (length cs)) = True"
      by simp
  qed
  then show ?thesis
    using clean_map_Color_exact [OF assms(1,2,3,4)] by (simp add: const_mask_Color)
qed

lemma clean_map_Color_large:
  assumes "in_byte_range (Color a)" "few_channels (Color a)"
    and "f64_of_pyint t \<noteq> Inl OverflowError" "255 \<le> t"
  shows "clean_map (Color a) t = Inr (const_mask (Color a) False)"
proof -
  obtain tf where tf: "f64_of_pyint t = Inr (Finite tf)" "f64_round (of_int t) = Finite tf"
  proof (cases rule: f64_of_pyint_cases [of t])
    case 1
    with assms(3) show ?thesis by simp
  next
    case (2 tf)
    then show ?thesis using that by blast
  qed
  have "map (map (\<lambda>cs. flt (Finite tf) (np_mean cs))) a = map (map (\<lambda>_. False)) a"
  proof (intro map_cong refl)
    fix row cs assume m: "row \<in> set a" "cs \<in> set row"
    note b = color_pixel_bytes [OF assms(1) m]
    show "flt (Finite tf) (np_mean cs) = False"
    proof (cases "cs = []")
      case True
      then show ?thesis by (simp add: np_mean_empty)
    next
      case False
      have "real_of_int 255 \<le> of_int t" using assms(4) by (rule iffD2 [OF of_int_le_iff])
      with mean_bounds(2) [OF b False]
      have "\<not> real_of_int t < real_of_int (sum_list cs) / real (length cs)" by simp
      then show ?thesis
        using flt_threshold_mean [OF b False color_pixel_few [OF assms(2) m] tf(2)] by simp
    qed
  qed
  then show ?thesis
    using clean_map_Color_ok [OF tf(1), of a] by (simp add: const_mask_Color)
qed

lemma rgb_pixel_facts:
  "in_byte_range rgb_pixel" "has_channels rgb_pixel" "few_channels rgb_pixel"
  by (simp_all add: in_byte_range_def pixel_values_def has_channels_def few_channels_def
      rgb_pixel_def)

text \<open>
  C8, as stated, fails: on a multi-channel array with values in \<open>[0, 255]\<close>
  the threshold \<open>2^1024\<close>, which is at least 255, raises \<^verbatim>\<open>OverflowError\<close>.
\<close>

theorem C8_counterexample:
  "in_byte_range rgb_pixel \<and> (255 :: int) \<le> 2 ^ 1024 \<and>
   clean_map rgb_pixel (2 ^ 1024) = Inl OverflowError"
proof -
  have "(2 :: int) ^ 8 \<le> 2 ^ 1024" by (intro power_increasing) simp_all
  moreover have "(255 :: int) \<le> 2 ^ 8" by simp
  ultimately have "(255 :: int) \<le> 2 ^ 1024" by (rule order_trans [rotated])
  moreover have "clean_map rgb_pixel (2 ^ 1024) = Inl OverflowError"
    unfolding rgb_pixel_def by (rule clean_map_Color_error [OF f64_of_pyint_overflow])
  ultimately show ?thesis using rgb_pixel_facts(1) by (simp only: simp_thms)
qed

text \<open>
  C8, amended: for a pixel array with values in \<open>[0, 255]\<close> and fewer than
  \<open>2^45\<close> channels per pixel, and a threshold whose comparison does not
  overflow (a single-channel array never overflows, a threshold of magnitude
  below \<open>2^53\<close> never overflows), a negative threshold gives the all-True mask
  when every pixel has at least one channel, and a threshold of 255 or more
  gives the all-False mask. Where the comparison overflows, \<open>clean_map\<close> raises
  \<^verbatim>\<open>OverflowError\<close>.
\<close>

theorem C8_out_of_range_thresholds:
  assumes "in_byte_range img" and "few_channels img"
  shows "(t < 0 \<and> has_channels img \<and> \<not> threshold_overflows img t \<longrightarrow>
            clean_map img t = Inr (const_mask img True)) \<and>
         (255 \<le> t \<and> \<not> threshold_overflows img t \<longrightarrow>
            clean_map img t = Inr (const_mask img False)) \<and>
         (threshold_overflows img t \<longrightarrow> clean_map img t = Inl OverflowError) \<and>
         (\<bar>t\<bar> < 2 ^ 53 \<longrightarrow> \<not> threshold_overflows img t)"
proof (cases img)
  case (Gray a)
  with assms have r: "\<And>row v. row \<in> set a \<Longrightarrow> v \<in> set row \<Longrightarrow> 0 \<le> v \<and> v \<le> 255"
    by (auto simp: in_byte_range_def list_all_iff pixel_values_def)
  have "t < 0 \<Longrightarrow> map (map (\<lambda>v. t < v)) a = map (map (\<lambda>_. True)) a"
    using r by (intro map_cong refl) force
  moreover have "255 \<le> t \<Longrightarrow> map (map (\<lambda>v. t < v)) a = map (map (\<lambda>_. False)) a"
    using r by (intro map_cong refl) force
  ultimately show ?thesis
    using Gray by (simp add: clean_map_Gray const_mask_def threshold_overflows_def)
next
  case (Color a)
  have o: "threshold_overflows img t \<longleftrightarrow> f64_of_pyint t = Inl OverflowError"
    using Color by (simp add: threshold_overflows_def)
  have 1: "clean_map img t = Inr (const_mask img True)"
    if "t < 0" "has_channels img" "\<not> threshold_overflows img t"
    using clean_map_Color_negative [of a t] assms that Color o by simp
  have 2: "clean_map img t = Inr (const_mask img False)"
    if "255 \<le> t" "\<not> threshold_overflows img t"
    using clean_map_Color_large [of a t] assms that Color o by simp
  have 3: "clean_map img t = Inl OverflowError" if "threshold_overflows img t"
    using clean_map_Color_error [of t OverflowError a] that Color o by simp
  have 4: "\<not> threshold_overflows img t" if "\<bar>t\<bar> < 2 ^ 53"
    using f64_of_pyint_small [OF that] o by simp
  from 1 2 3 4 show ?thesis by blast
qed

text \<open>The theorem of C8 at a concrete input.\<close>

theorem C8_witness:
  "in_byte_range rgb_pixel \<and> few_channels rgb_pixel \<and> has_channels rgb_pixel \<and>
   (- 1 :: int) < 0 \<and> (255 :: int) \<le> 255 \<and>
   clean_map rgb_pixel (- 1) = Inr [[True]] \<and> clean_map rgb_pixel 255 = Inr [[False]]"
proof -
  have m: "const_mask rgb_pixel True = [[True]]" "const_mask rgb_pixel False = [[False]]"
    by (simp_all add: const_mask_def rgb_pixel_def)
  have t: "\<bar>- 1 :: int\<bar> < 2 ^ 53" "\<bar>255 :: int\<bar> < 2 ^ 53" by simp_all
  from C8_out_of_range_thresholds [OF rgb_pixel_facts(1,3), of "- 1"]
       C8_out_of_range_thresholds [OF rgb_pixel_facts(1,3), of 255] rgb_pixel_facts m t
  show ?thesis by simp
qed

end
